theory Spec2Isabelle
  imports Complex_Main "HOL-Library.Multiset"
begin

section \<open>Comparators\<close>

text \<open>
  A comparator is a function of two elements that returns a signed number; the library
  only ever looks at its sign. The default comparator of the sorting and searching suites
  and of \<open>MinHeap\<close> is numeric subtraction.
\<close>

type_synonym 'a comparator = "'a \<Rightarrow> 'a \<Rightarrow> int"

definition default_compare :: "int comparator" where
  "default_compare a b = a - b"

text \<open>
  The comparator contract of the library: the sign of \<open>compare b a\<close> is the opposite of
  the sign of \<open>compare a b\<close>, and \<open>compare a b \<le> 0\<close> is transitive.
\<close>

definition valid_compare :: "'a comparator \<Rightarrow> bool" where
  "valid_compare compare \<longleftrightarrow>
     (\<forall>a b. (compare a b < 0) = (0 < compare b a)) \<and>
     (\<forall>a b c. compare a b \<le> 0 \<and> compare b c \<le> 0 \<longrightarrow> compare a c \<le> 0)"

section \<open>Arrays and memory\<close>

text \<open>
  A JavaScript array is an object with identity: two variables can name the same array,
  and a write through one is seen through the other. Arrays live in a memory, a map from
  references to their contents, and a counter gives the next unused reference.
\<close>

type_synonym ref = nat

record 'a memory =
  arrays :: "ref \<Rightarrow> 'a list"
  next_ref :: ref

definition new_array :: "'a list \<Rightarrow> 'a memory \<Rightarrow> ref \<times> 'a memory" where
  "new_array xs m =
     (next_ref m, m\<lparr>arrays := (arrays m)(next_ref m := xs), next_ref := Suc (next_ref m)\<rparr>)"

definition write_array :: "ref \<Rightarrow> 'a list \<Rightarrow> 'a memory \<Rightarrow> 'a memory" where
  "write_array r xs m = m\<lparr>arrays := (arrays m)(r := xs)\<rparr>"

text \<open>The destructuring swap \<open>[a[i], a[j]] = [a[j], a[i]]\<close>.\<close>

definition swap :: "'a list \<Rightarrow> nat \<Rightarrow> nat \<Rightarrow> 'a list" where
  "swap a i j = a[i := a ! j, j := a ! i]"

section \<open>Errors\<close>

text \<open>The exceptions that the library throws, by their messages.\<close>

datatype error =
    ElementNullOrUndefined  \<comment> \<open>TypeError: Element cannot be null or undefined\<close>
  | ElementsNotArray        \<comment> \<open>TypeError: Elements must be an array\<close>
  | ArrayNotSorted          \<comment> \<open>Error: Array must be sorted for binary search\<close>
  | NegativeNumbers         \<comment> \<open>Error: Counting sort only works with non-negative integers\<close>

section \<open>The array algorithms of the class \<open>Heap\<close>\<close>

text \<open>
  \<open>bubbleUp\<close>, \<open>bubbleDown\<close> and \<open>heapify\<close> work in place on an array; here they take
  the array's contents and return the new contents. Every call site passes an index
  inside the array.
\<close>

function bubbleUp :: "'a comparator \<Rightarrow> 'a list \<Rightarrow> nat \<Rightarrow> 'a list" where
  "bubbleUp compare heap index =
     (if index > 0 then
        (let parentIndex = (index - 1) div 2 in
         if compare (heap ! parentIndex) (heap ! index) \<le> 0 then heap
         else bubbleUp compare (swap heap parentIndex index) parentIndex)
      else heap)"
  by pat_completeness auto
termination
  by (relation "measure (\<lambda>(compare, heap, index). index)") auto

declare bubbleUp.simps [simp del]

text \<open>The two \<open>if\<close> statements that pick the smaller of a node and its children.\<close>

definition minIndex_of :: "'a comparator \<Rightarrow> 'a list \<Rightarrow> nat \<Rightarrow> nat \<Rightarrow> nat" where
  "minIndex_of compare heap len index =
     (let minIndex = index;
          leftChild = 2 * index + 1;
          rightChild = 2 * index + 2;
          minIndex = (if leftChild < len \<and> compare (heap ! leftChild) (heap ! minIndex) < 0
                      then leftChild else minIndex);
          minIndex = (if rightChild < len \<and> compare (heap ! rightChild) (heap ! minIndex) < 0
                      then rightChild else minIndex)
      in minIndex)"

lemma minIndex_of_cases:
  "minIndex_of compare heap n i = i \<or>
   (minIndex_of compare heap n i = 2 * i + 1 \<and> 2 * i + 1 < n) \<or>
   (minIndex_of compare heap n i = 2 * i + 2 \<and> 2 * i + 2 < n)"
  by (simp add: minIndex_of_def Let_def)

function heapify :: "'a comparator \<Rightarrow> 'a list \<Rightarrow> nat \<Rightarrow> nat \<Rightarrow> 'a list" where
  "heapify compare arr i sz =
     (let smallest = minIndex_of compare arr sz i in
      if smallest = i then arr
      else heapify compare (swap arr i smallest) smallest sz)"
  by pat_completeness auto
termination
proof (relation "measure (\<lambda>(compare, arr, i, sz). sz - i)")
  show "wf (measure (\<lambda>(compare, arr, i, sz). sz - i))" by simp
next
  fix compare :: "'a comparator" and arr :: "'a list" and i sz x :: nat
  assume "x = minIndex_of compare arr sz i" and "x \<noteq> i"
  then show "((compare, swap arr i x, x, sz), (compare, arr, i, sz))
     \<in> measure (\<lambda>(compare, arr, i, sz). sz - i)"
    using minIndex_of_cases [of compare arr sz i] by auto
qed

declare heapify.simps [simp del]

function bubbleDown :: "'a comparator \<Rightarrow> 'a list \<Rightarrow> nat \<Rightarrow> 'a list" where
  "bubbleDown compare heap index =
     (let len = length heap;
          minIndex = minIndex_of compare heap len index in
      if minIndex = index then heap
      else bubbleDown compare (swap heap index minIndex) minIndex)"
  by pat_completeness auto
termination
proof (relation "measure (\<lambda>(compare, heap, index). length heap - index)")
  show "wf (measure (\<lambda>(compare, heap, index). length heap - index))" by simp
next
  fix compare :: "'a comparator" and heap :: "'a list" and index x xa :: nat
  assume "x = length heap" and "xa = minIndex_of compare heap x index" and "xa \<noteq> index"
  then show "((compare, swap heap index xa, xa), (compare, heap, index))
     \<in> measure (\<lambda>(compare, heap, index). length heap - index)"
    using minIndex_of_cases [of compare heap "length heap" index] by (auto simp: swap_def)
qed

declare bubbleDown.simps [simp del]

text \<open>The loop of \<open>from\<close>: \<open>for (i = floor(n / 2) - 1; i >= 0; i--) bubbleDown(elements, i)\<close>.\<close>

function from_loop :: "'a comparator \<Rightarrow> 'a list \<Rightarrow> int \<Rightarrow> 'a list" where
  "from_loop compare heap i =
     (if i \<ge> 0 then from_loop compare (bubbleDown compare heap (nat i)) (i - 1) else heap)"
  by pat_completeness auto
termination
  by (relation "measure (\<lambda>(compare, heap, i). nat (i + 1))") auto

declare from_loop.simps [simp del]

text \<open>
  The loop of the iterator:
  \<open>for (i = size - 1; i > 0; i--) { swap(elements, 0, i); heapify(elements, 0, i) }\<close>.
\<close>

function iterator_loop :: "'a comparator \<Rightarrow> 'a list \<Rightarrow> int \<Rightarrow> 'a list" where
  "iterator_loop compare elems i =
     (if i > 0 then
        iterator_loop compare (heapify compare (swap elems 0 (nat i)) 0 (nat i)) (i - 1)
      else elems)"
  by pat_completeness auto
termination
  by (relation "measure (\<lambda>(compare, elems, i). nat i)") auto

declare iterator_loop.simps [simp del]

section \<open>The sorting suite (the class \<open>Sorting\<close>)\<close>

text \<open>
  The scan \<open>for (i = 1; i < arr.length; i++) if (compare(arr[i - 1], arr[i]) > 0) ...\<close>
  of \<open>isSorted\<close>; \<open>binarySearch\<close> and \<open>search\<close> run the same scan.
\<close>

function isSorted_loop :: "'a comparator \<Rightarrow> 'a list \<Rightarrow> nat \<Rightarrow> bool" where
  "isSorted_loop compare arr i =
     (if i < length arr then
        (if compare (arr ! (i - 1)) (arr ! i) > 0 then False
         else isSorted_loop compare arr (i + 1))
      else True)"
  by pat_completeness auto
termination
  by (relation "measure (\<lambda>(compare, arr, i). length arr - i)") auto

declare isSorted_loop.simps [simp del]

definition isSorted :: "'a comparator \<Rightarrow> 'a list \<Rightarrow> bool" where
  "isSorted compare arr = isSorted_loop compare arr 1"

subsection \<open>quickSort\<close>

text \<open>
  The two scans of the Hoare partition, \<open>do { i++ } while (compare(result[i], pivot) < 0)\<close>
  and \<open>do { j-- } while (compare(result[j], pivot) > 0)\<close>. When the index leaves the array
  the source hands \<open>undefined\<close> to the comparator; the model stops there with \<open>None\<close>.
\<close>

function scan_up :: "'a comparator \<Rightarrow> 'a list \<Rightarrow> 'a \<Rightarrow> int \<Rightarrow> int option" where
  "scan_up compare result pivot i =
     (let i = i + 1 in
      if 0 \<le> i \<and> i < int (length result) then
        (if compare (result ! nat i) pivot < 0 then scan_up compare result pivot i else Some i)
      else None)"
  by pat_completeness auto
termination
  by (relation "measure (\<lambda>(compare, result, pivot, i). nat (int (length result) - i))") auto

declare scan_up.simps [simp del]

function scan_down :: "'a comparator \<Rightarrow> 'a list \<Rightarrow> 'a \<Rightarrow> int \<Rightarrow> int option" where
  "scan_down compare result pivot j =
     (let j = j - 1 in
      if 0 \<le> j \<and> j < int (length result) then
        (if compare (result ! nat j) pivot > 0 then scan_down compare result pivot j else Some j)
      else None)"
  by pat_completeness auto
termination
  by (relation "measure (\<lambda>(compare, result, pivot, j). nat (j + 1))") auto

declare scan_down.simps [simp del]

lemma scan_up_greater: "scan_up cmp xs v i = Some i' \<Longrightarrow> i < i' \<and> i' < int (length xs)"
proof (induction cmp xs v i rule: scan_up.induct)
  case (1 compare result pivot i)
  show ?case
  proof (cases "0 \<le> i + 1 \<and> i + 1 < int (length result) \<and> compare (result ! nat (i + 1)) pivot < 0")
    case True
    then have "scan_up compare result pivot (i + 1) = Some i'"
      using "1.prems" by (subst (asm) scan_up.simps) (simp add: Let_def)
    then have "i + 1 < i' \<and> i' < int (length result)"
      using "1.IH" [OF refl] True by blast
    then show ?thesis by simp
  next
    case False
    then show ?thesis
      using "1.prems" by (subst (asm) scan_up.simps) (auto simp: Let_def split: if_splits)
  qed
qed

lemma scan_down_less: "scan_down cmp xs v j = Some j' \<Longrightarrow> j' < j \<and> 0 \<le> j'"
proof (induction cmp xs v j rule: scan_down.induct)
  case (1 compare result pivot j)
  show ?case
  proof (cases "0 \<le> j - 1 \<and> j - 1 < int (length result) \<and> compare (result ! nat (j - 1)) pivot > 0")
    case True
    then have "scan_down compare result pivot (j - 1) = Some j'"
      using "1.prems" by (subst (asm) scan_down.simps) (simp add: Let_def)
    then have "j' < j - 1 \<and> 0 \<le> j'"
      using "1.IH" [OF refl] True by blast
    then show ?thesis by simp
  next
    case False
    then show ?thesis
      using "1.prems" by (subst (asm) scan_down.simps) (auto simp: Let_def split: if_splits)
  qed
qed

text \<open>
  The \<open>while (true)\<close> loop of \<open>partition\<close>; it returns \<open>j\<close> and the array. \<open>partition\<close>
  itself reads the pivot in the middle of the range, and is \<open>None\<close> too when that index is
  outside the array.
\<close>

function partition_loop ::
  "'a comparator \<Rightarrow> 'a list \<Rightarrow> 'a \<Rightarrow> int \<Rightarrow> int \<Rightarrow> (int \<times> 'a list) option" where
  "partition_loop compare result pivot i j =
     (case scan_up compare result pivot i of
        None \<Rightarrow> None
      | Some i \<Rightarrow>
          (case scan_down compare result pivot j of
             None \<Rightarrow> None
           | Some j \<Rightarrow>
               if i \<ge> j then Some (j, result)
               else partition_loop compare (swap result (nat i) (nat j)) pivot i j))"
  by pat_completeness auto
termination
proof (relation "measure (\<lambda>(compare, result, pivot, i, j). nat (j - i))")
  show "wf (measure (\<lambda>(compare, result, pivot, i, j). nat (j - i)))" by simp
next
  fix compare :: "'a comparator" and result :: "'a list" and pivot :: 'a and i j x2 x2a :: int
  assume "scan_up compare result pivot i = Some x2"
    and "scan_down compare result pivot j = Some x2a" and "\<not> x2a \<le> x2"
  then show "((compare, swap result (nat x2) (nat x2a), pivot, x2, x2a), (compare, result, pivot, i, j))
      \<in> measure (\<lambda>(compare, result, pivot, i, j). nat (j - i))"
    using scan_up_greater [of compare result pivot i x2]
      scan_down_less [of compare result pivot j x2a] by simp
qed

declare partition_loop.simps [simp del]

definition partition :: "'a comparator \<Rightarrow> 'a list \<Rightarrow> int \<Rightarrow> int \<Rightarrow> (int \<times> 'a list) option" where
  "partition compare result low high =
     (let mid = (low + high) div 2 in
      if 0 \<le> mid \<and> mid < int (length result) then
        (let pivot = result ! nat mid;
             i = low - 1;
             j = high + 1
         in partition_loop compare result pivot i j)
      else None)"

text \<open>
  The recursive closure \<open>sort(low, high)\<close>. With a comparator that breaks its contract the
  recursion need not end, and \<open>None\<close> also stands for a call that does not return.
\<close>

partial_function (option) quickSort_sort ::
  "'a comparator \<Rightarrow> 'a list \<Rightarrow> int \<Rightarrow> int \<Rightarrow> 'a list option" where
  "quickSort_sort compare result low high =
     (if low < high then
        (case partition compare result low high of
           None \<Rightarrow> None
         | Some (p, result) \<Rightarrow>
             Option.bind (quickSort_sort compare result low p)
               (\<lambda>result. quickSort_sort compare result (p + 1) high))
      else Some result)"

declare quickSort_sort.simps [code]

text \<open>
  \<open>quickSort\<close> copies \<open>arr\<close> into a new array \<open>result\<close> and sorts that one in place. The
  result is the reference of the new array, or \<open>None\<close> when the run does not return one.
\<close>

definition quickSort :: "'a comparator \<Rightarrow> ref \<Rightarrow> 'a memory \<Rightarrow> ref option \<times> 'a memory" where
  "quickSort compare arr m =
     (if length (arrays m arr) \<le> 1 then
        (let (copy, m) = new_array (arrays m arr) m in (Some copy, m))
      else
        (let (result, m) = new_array (arrays m arr) m in
         case quickSort_sort compare (arrays m result) 0 (int (length (arrays m result)) - 1) of
           None \<Rightarrow> (None, m)
         | Some result' \<Rightarrow> (Some result, write_array result result' m)))"

subsection \<open>mergeSort\<close>

text \<open>The \<open>while\<close> loop of \<open>merge\<close> and its final spread of the two rests.\<close>

function merge_loop ::
  "'a comparator \<Rightarrow> 'a list \<Rightarrow> 'a list \<Rightarrow> 'a list \<Rightarrow> nat \<Rightarrow> nat \<Rightarrow> 'a list" where
  "merge_loop compare left right result i j =
     (if i < length left \<and> j < length right then
        (if compare (left ! i) (right ! j) \<le> 0
         then merge_loop compare left right (result @ [left ! i]) (i + 1) j
         else merge_loop compare left right (result @ [right ! j]) i (j + 1))
      else result @ drop i left @ drop j right)"
  by pat_completeness auto
termination
  by (relation "measure (\<lambda>(compare, left, right, result, i, j).
        (length left - i) + (length right - j))") auto

declare merge_loop.simps [simp del]

definition merge :: "'a comparator \<Rightarrow> 'a list \<Rightarrow> 'a list \<Rightarrow> 'a list" where
  "merge compare left right = merge_loop compare left right [] 0 0"

text \<open>
  Every array that \<open>mergeSort\<close> builds (the slices, the merged runs, the spreads) is new, so
  the recursion is on contents; \<open>mergeSort\<close> below allocates the array it returns.
\<close>

function mergeSort_list :: "'a comparator \<Rightarrow> 'a list \<Rightarrow> 'a list" where
  "mergeSort_list compare arr =
     (if length arr \<le> 1 then arr
      else
        (let mid = length arr div 2;
             left = take mid arr;
             right = drop mid arr
         in merge compare (mergeSort_list compare left) (mergeSort_list compare right)))"
  by pat_completeness auto
termination
  by (relation "measure (\<lambda>(compare, arr). length arr)") auto

declare mergeSort_list.simps [simp del]

definition mergeSort :: "'a comparator \<Rightarrow> ref \<Rightarrow> 'a memory \<Rightarrow> ref \<times> 'a memory" where
  "mergeSort compare arr m = new_array (mergeSort_list compare (arrays m arr)) m"

subsection \<open>heapSort\<close>

text \<open>The two \<open>if\<close> statements of the closure \<open>heapify\<close> that pick the largest.\<close>

definition largest_of :: "'a comparator \<Rightarrow> 'a list \<Rightarrow> nat \<Rightarrow> nat \<Rightarrow> nat" where
  "largest_of compare result n i =
     (let largest = i;
          left = 2 * i + 1;
          right = 2 * i + 2;
          largest = (if left < n \<and> compare (result ! left) (result ! largest) > 0
                     then left else largest);
          largest = (if right < n \<and> compare (result ! right) (result ! largest) > 0
                     then right else largest)
      in largest)"

lemma largest_of_cases:
  "largest_of cmp xs n i = i \<or>
   (largest_of cmp xs n i = 2 * i + 1 \<and> 2 * i + 1 < n) \<or>
   (largest_of cmp xs n i = 2 * i + 2 \<and> 2 * i + 2 < n)"
  by (simp add: largest_of_def Let_def)

function heapSort_heapify :: "'a comparator \<Rightarrow> 'a list \<Rightarrow> nat \<Rightarrow> nat \<Rightarrow> 'a list" where
  "heapSort_heapify compare result n i =
     (let largest = largest_of compare result n i in
      if largest \<noteq> i then heapSort_heapify compare (swap result i largest) n largest
      else result)"
  by pat_completeness auto
termination
proof (relation "measure (\<lambda>(compare, result, n, i). n - i)")
  show "wf (measure (\<lambda>(compare, result, n, i). n - i))" by simp
next
  fix compare :: "'a comparator" and result :: "'a list" and n i x :: nat
  assume "x = largest_of compare result n i" and "x \<noteq> i"
  then show "((compare, swap result i x, n, x), (compare, result, n, i))
     \<in> measure (\<lambda>(compare, result, n, i). n - i)"
    using largest_of_cases [of compare result n i] by auto
qed

declare heapSort_heapify.simps [simp del]

text \<open>\<open>for (i = floor(n / 2) - 1; i >= 0; i--) heapify(n, i)\<close>\<close>

function heapSort_build :: "'a comparator \<Rightarrow> 'a list \<Rightarrow> int \<Rightarrow> 'a list" where
  "heapSort_build compare result i =
     (if i \<ge> 0 then
        heapSort_build compare (heapSort_heapify compare result (length result) (nat i)) (i - 1)
      else result)"
  by pat_completeness auto
termination
  by (relation "measure (\<lambda>(compare, result, i). nat (i + 1))") auto

declare heapSort_build.simps [simp del]

text \<open>\<open>for (i = n - 1; i > 0; i--) { swap(result, 0, i); heapify(i, 0) }\<close>\<close>

function heapSort_extract :: "'a comparator \<Rightarrow> 'a list \<Rightarrow> int \<Rightarrow> 'a list" where
  "heapSort_extract compare result i =
     (if i > 0 then
        heapSort_extract compare
          (heapSort_heapify compare (swap result 0 (nat i)) (nat i) 0) (i - 1)
      else result)"
  by pat_completeness auto
termination
  by (relation "measure (\<lambda>(compare, result, i). nat i)") auto

declare heapSort_extract.simps [simp del]

definition heapSort :: "'a comparator \<Rightarrow> ref \<Rightarrow> 'a memory \<Rightarrow> ref \<times> 'a memory" where
  "heapSort compare arr m =
     (let (result, m) = new_array (arrays m arr) m;
          n = length (arrays m result);
          m = write_array result (heapSort_build compare (arrays m result) (int (n div 2) - 1)) m;
          m = write_array result (heapSort_extract compare (arrays m result) (int n - 1)) m
      in (result, m))"

subsection \<open>insertionSort\<close>

text \<open>
  \<open>while (j >= 0 && compare(result[j], key) > 0) { result[j + 1] = result[j]; j-- }\<close>;
  it returns the array and \<open>j\<close>.
\<close>

function insertion_shift :: "'a comparator \<Rightarrow> 'a list \<Rightarrow> 'a \<Rightarrow> int \<Rightarrow> 'a list \<times> int" where
  "insertion_shift compare result key j =
     (if j \<ge> 0 \<and> compare (result ! nat j) key > 0 then
        insertion_shift compare (result[nat (j + 1) := result ! nat j]) key (j - 1)
      else (result, j))"
  by pat_completeness auto
termination
  by (relation "measure (\<lambda>(compare, result, key, j). nat (j + 1))") auto

declare insertion_shift.simps [simp del]

function insertion_loop :: "'a comparator \<Rightarrow> 'a list \<Rightarrow> nat \<Rightarrow> 'a list" where
  "insertion_loop compare result i =
     (if i < length result then
        (let key = result ! i;
             (result, j) = insertion_shift compare result key (int i - 1);
             result = result[nat (j + 1) := key]
         in insertion_loop compare result (i + 1))
      else result)"
  by pat_completeness auto

lemma length_insertion_shift:
  "insertion_shift cmp xs k j = (ys, j') \<Longrightarrow> length ys = length xs"
proof (induction cmp xs k j rule: insertion_shift.induct)
  case (1 compare result key j)
  show ?case
  proof (cases "j \<ge> 0 \<and> compare (result ! nat j) key > 0")
    case True
    then have "insertion_shift compare (result[nat (j + 1) := result ! nat j]) key (j - 1) = (ys, j')"
      using "1.prems" by (subst (asm) insertion_shift.simps) simp
    then show ?thesis using "1.IH" True by simp
  next
    case False
    then show ?thesis using "1.prems" by (subst (asm) insertion_shift.simps) auto
  qed
qed

termination insertion_loop
proof (relation "measure (\<lambda>(compare, result, i). length result - i)")
  show "wf (measure (\<lambda>(compare, result, i). length result - i))" by simp
next
  fix compare :: "'a comparator" and result :: "'a list" and i :: nat and x :: 'a
    and xa :: "'a list \<times> int" and xb :: "'a list" and y :: int and xc :: "'a list"
  assume "i < length result" and "x = result ! i"
    and "xa = insertion_shift compare result x (int i - 1)"
    and "(xb, y) = xa" and "xc = xb[nat (y + 1) := x]"
  then show "((compare, xc, i + 1), (compare, result, i))
      \<in> measure (\<lambda>(compare, result, i). length result - i)"
    using length_insertion_shift [of compare result x "int i - 1" xb y] by simp
qed

declare insertion_loop.simps [simp del]

definition insertionSort :: "'a comparator \<Rightarrow> ref \<Rightarrow> 'a memory \<Rightarrow> ref \<times> 'a memory" where
  "insertionSort compare arr m =
     (let (result, m) = new_array (arrays m arr) m;
          m = write_array result (insertion_loop compare (arrays m result) 1) m
      in (result, m))"

subsection \<open>The dispatcher\<close>

definition sort :: "'a comparator \<Rightarrow> ref \<Rightarrow> 'a memory \<Rightarrow> ref option \<times> 'a memory" where
  "sort compare arr m =
     (if length (arrays m arr) \<le> 10 then
        (let (r, m) = insertionSort compare arr m in (Some r, m))
      else quickSort compare arr m)"

subsection \<open>countingSort\<close>

text \<open>
  \<open>countingSort\<close> only reads its input, so it is a function of the input's contents. The
  array it returns starts as \<open>new Array(n)\<close>, whose slots are empty (\<open>None\<close>).
\<close>

text \<open>\<open>for (i = 1; i < count.length; i++) count[i] += count[i - 1]\<close>\<close>

function cumulative_loop :: "int list \<Rightarrow> nat \<Rightarrow> int list" where
  "cumulative_loop count' i =
     (if i < length count' then cumulative_loop (count'[i := count' ! i + count' ! (i - 1)]) (i + 1)
      else count')"
  by pat_completeness auto
termination
  by (relation "measure (\<lambda>(count', i). length count' - i)") auto

declare cumulative_loop.simps [simp del]

text \<open>
  \<open>for (i = n - 1; i >= 0; i--) { result[count[arr[i]] - 1] = arr[i]; count[arr[i]]-- }\<close>
\<close>

function build_loop :: "int list \<Rightarrow> int list \<Rightarrow> int option list \<Rightarrow> int \<Rightarrow> int option list" where
  "build_loop arr count' result i =
     (if i \<ge> 0 then
        (let x = arr ! nat i;
             result = result[nat (count' ! nat x - 1) := Some x];
             count' = count'[nat x := count' ! nat x - 1]
         in build_loop arr count' result (i - 1))
      else result)"
  by pat_completeness auto
termination
  by (relation "measure (\<lambda>(arr, count', result, i). nat (i + 1))") auto

declare build_loop.simps [simp del]

definition countingSort :: "int list \<Rightarrow> error + int option list" where
  "countingSort arr =
     (if length arr \<le> 1 then Inr (map Some arr)
      else if \<exists>n \<in> set arr. n < 0 then Inl NegativeNumbers
      else
        (let max = Max (set arr);
             count' = replicate (nat (max + 1)) 0;
             result = replicate (length arr) None;
             count' = fold (\<lambda>num count'. count'[nat num := count' ! nat num + 1]) arr count';
             count' = cumulative_loop count' 1
         in Inr (build_loop arr count' result (int (length arr) - 1))))"

section \<open>The searching suite (the class \<open>Searching\<close>)\<close>

text \<open>
  The searching functions only read their array, so they are functions of its contents.
  \<open>element = None\<close> is \<open>element: undefined\<close>.
\<close>

record 'a SearchResult =
  element :: "'a option"
  index :: int
  comparisons :: nat

subsection \<open>binarySearch\<close>

function binarySearch_loop ::
  "'a comparator \<Rightarrow> 'a list \<Rightarrow> 'a \<Rightarrow> int \<Rightarrow> int \<Rightarrow> nat \<Rightarrow> 'a SearchResult" where
  "binarySearch_loop compare arr target left right comparisons' =
     (if left \<le> right then
        (let mid = left + (right - left) div 2;
             comparisons = comparisons' + 1;
             comparison = compare (arr ! nat mid) target
         in if comparison = 0 then
              \<lparr>element = Some (arr ! nat mid), index = mid, comparisons = comparisons\<rparr>
            else if comparison < 0 then
              binarySearch_loop compare arr target (mid + 1) right comparisons
            else
              binarySearch_loop compare arr target left (mid - 1) comparisons)
      else \<lparr>element = None, index = - 1, comparisons = comparisons'\<rparr>)"
  by pat_completeness auto
termination
  by (relation "measure (\<lambda>(compare, arr, target, left, right, comparisons').
        nat (right - left + 1))") auto

declare binarySearch_loop.simps [simp del]

definition binarySearch :: "'a comparator \<Rightarrow> 'a list \<Rightarrow> 'a \<Rightarrow> error + 'a SearchResult" where
  "binarySearch compare arr target =
     (let comparisons = 0;
          left = 0;
          right = int (length arr) - 1
      in if \<not> isSorted_loop compare arr 1 then Inl ArrayNotSorted
         else Inr (binarySearch_loop compare arr target left right comparisons))"

subsection \<open>linearSearch\<close>

function linearSearch_loop ::
  "'a comparator \<Rightarrow> 'a list \<Rightarrow> 'a \<Rightarrow> nat \<Rightarrow> nat \<Rightarrow> 'a SearchResult" where
  "linearSearch_loop compare arr target i comparisons' =
     (if i < length arr then
        (let comparisons = comparisons' + 1 in
         if compare (arr ! i) target = 0 then
           \<lparr>element = Some (arr ! i), index = int i, comparisons = comparisons\<rparr>
         else linearSearch_loop compare arr target (i + 1) comparisons)
      else \<lparr>element = None, index = - 1, comparisons = comparisons'\<rparr>)"
  by pat_completeness auto
termination
  by (relation "measure (\<lambda>(compare, arr, target, i, comparisons'). length arr - i)") auto

declare linearSearch_loop.simps [simp del]

definition linearSearch :: "'a comparator \<Rightarrow> 'a list \<Rightarrow> 'a \<Rightarrow> 'a SearchResult" where
  "linearSearch compare arr target = linearSearch_loop compare arr target 0 0"

subsection \<open>interpolationSearch\<close>

text \<open>
  The numbers are integers. When \<open>arr[high] - arr[low]\<close> is \<open>0\<close> inside the loop, the loop
  condition gives \<open>target = arr[low]\<close>, so the quotient is \<open>0 / 0\<close>, which is \<open>NaN\<close>: \<open>pos\<close> is
  \<open>NaN\<close>, \<open>arr[pos]\<close> is \<open>undefined\<close>, both \<open>arr[pos] === target\<close> and \<open>arr[pos] < target\<close> are
  false, \<open>high\<close> becomes \<open>NaN\<close>, the loop condition \<open>low <= high\<close> is false and the function
  returns not-found. Otherwise the quotient of two integers, floored, is \<open>div\<close>, and \<open>pos\<close>
  lies between \<open>low\<close> and \<open>high\<close>, so that from the first call on every index read is inside
  the array.
\<close>

lemma interpolation_quotient_bounds:
  fixes d x y :: int
  assumes "0 \<le> d" "0 \<le> x" "x \<le> y" "0 < y"
  shows "0 \<le> (d * x) div y \<and> (d * x) div y \<le> d"
proof -
  have "d * x \<le> d * y" using assms by (simp add: mult_left_mono)
  then have "(d * x) div y \<le> d" using assms zdiv_mono1 [of "d * x" "d * y" y] by simp
  moreover have "0 \<le> (d * x) div y" using assms by (simp add: pos_imp_zdiv_nonneg_iff)
  ultimately show ?thesis by simp
qed

function interpolationSearch_loop ::
  "int list \<Rightarrow> int \<Rightarrow> int \<Rightarrow> int \<Rightarrow> nat \<Rightarrow> int SearchResult" where
  "interpolationSearch_loop arr target low high comparisons' =
     (if low \<le> high \<and> target \<ge> arr ! nat low \<and> target \<le> arr ! nat high then
        (let comparisons = comparisons' + 1 in
         if low = high then
           (if arr ! nat low = target then
              \<lparr>element = Some (arr ! nat low), index = low, comparisons = comparisons\<rparr>
            else \<lparr>element = None, index = - 1, comparisons = comparisons\<rparr>)
         else if arr ! nat high - arr ! nat low = 0 then
           \<lparr>element = None, index = - 1, comparisons = comparisons\<rparr>
         else
           (let pos = low + ((high - low) * (target - arr ! nat low))
                              div (arr ! nat high - arr ! nat low)
            in if arr ! nat pos = target then
                 \<lparr>element = Some (arr ! nat pos), index = pos, comparisons = comparisons\<rparr>
               else if arr ! nat pos < target then
                 interpolationSearch_loop arr target (pos + 1) high comparisons
               else
                 interpolationSearch_loop arr target low (pos - 1) comparisons))
      else \<lparr>element = None, index = - 1, comparisons = comparisons'\<rparr>)"
  by pat_completeness auto
termination
proof (relation "measure (\<lambda>(arr, target, low, high, comparisons'). nat (high - low + 1))")
  show "wf (measure (\<lambda>(arr, target, low, high, comparisons'). nat (high - low + 1)))" by simp
next
  fix arr :: "int list" and target low high pos :: int and comparisons' x :: nat
  assume c: "low \<le> high \<and> arr ! nat low \<le> target \<and> target \<le> arr ! nat high"
    and "low \<noteq> high" and nz: "arr ! nat high - arr ! nat low \<noteq> 0"
    and pos: "pos = low + (high - low) * (target - arr ! nat low) div (arr ! nat high - arr ! nat low)"
  have "0 \<le> (high - low) * (target - arr ! nat low) div (arr ! nat high - arr ! nat low)
      \<and> (high - low) * (target - arr ! nat low) div (arr ! nat high - arr ! nat low) \<le> high - low"
    using c nz by (intro interpolation_quotient_bounds) auto
  then have b: "low \<le> pos \<and> pos \<le> high" using pos by simp
  show "((arr, target, pos + 1, high, x), (arr, target, low, high, comparisons'))
      \<in> measure (\<lambda>(arr, target, low, high, comparisons'). nat (high - low + 1))"
    using b by simp
  show "((arr, target, low, pos - 1, x), (arr, target, low, high, comparisons'))
      \<in> measure (\<lambda>(arr, target, low, high, comparisons'). nat (high - low + 1))"
    using b by simp
qed

declare interpolationSearch_loop.simps [simp del]

definition interpolationSearch :: "int list \<Rightarrow> int \<Rightarrow> int SearchResult" where
  "interpolationSearch arr target =
     (let comparisons = 0;
          low = 0;
          high = int (length arr) - 1
      in interpolationSearch_loop arr target low high comparisons)"

subsection \<open>The dispatcher\<close>

text \<open>
  \<open>isUniformlyDistributed\<close> computes a mean and a variance in double precision; the model
  computes them exactly.
\<close>

definition isUniformlyDistributed :: "int list \<Rightarrow> bool" where
  "isUniformlyDistributed arr =
     (if length arr < 4 then False
      else
        (let diffs = map (\<lambda>i. real_of_int (arr ! i - arr ! (i - 1))) [1..<length arr];
             avgDiff = fold (\<lambda>b a. a + b) (tl diffs) (hd diffs) / real (length diffs);
             variance = fold (\<lambda>b a. a + (b - avgDiff) ^ 2) diffs 0 / real (length diffs)
         in variance < avgDiff / 2))"

text \<open>
  \<open>search\<close> works on values of any type; \<open>number_of x\<close> is the number that \<open>x\<close> is when
  \<open>typeof x === "number"\<close>, and \<open>None\<close> otherwise. The routing scan is the loop of
  \<open>isSorted\<close> with a \<open>break\<close> at the first descent.
\<close>

definition search ::
  "('a \<Rightarrow> int option) \<Rightarrow> 'a comparator \<Rightarrow> 'a list \<Rightarrow> 'a \<Rightarrow> error + 'a SearchResult" where
  "search number_of compare arr target =
     (if length arr \<le> 10 then Inr (linearSearch compare arr target)
      else
        (let isSorted = isSorted_loop compare arr 1 in
         if \<not> isSorted then Inr (linearSearch compare arr target)
         else if number_of target \<noteq> None \<and> list_all (\<lambda>x. number_of x \<noteq> None) arr
                 \<and> isUniformlyDistributed (map (\<lambda>x. the (number_of x)) arr) then
           (let r = interpolationSearch (map (\<lambda>x. the (number_of x)) arr) (the (number_of target))
            in Inr \<lparr>element = (if element r = None then None else Some (arr ! nat (index r))),
                    index = index r, comparisons = comparisons r\<rparr>)
         else binarySearch compare arr target))"

section \<open>Heap objects (\<open>MinHeap\<close>, \<open>MaxHeap\<close>, \<open>CustomHeap\<close>, \<open>BinaryHeap\<close>)\<close>

text \<open>
  A heap object holds a reference to its backing array, its class, and its \<open>compare\<close>
  method. The methods of the base class \<open>Heap\<close> call \<open>this.compare\<close> and \<open>this.clone\<close>,
  which every subclass overrides.
\<close>

datatype heap_type = Min | Max

datatype heap_class = MinHeap | MaxHeap | CustomHeap | BinaryHeap heap_type

record 'a heap =
  elements :: ref
  heap_class :: heap_class
  compare :: "'a comparator"

text \<open>The constructors; each one runs \<open>this.elements = []\<close>.\<close>

definition new_MinHeap :: "int memory \<Rightarrow> int heap \<times> int memory" where
  "new_MinHeap m =
     (let (r, m) = new_array [] m in
      (\<lparr>elements = r, heap_class = MinHeap, compare = (\<lambda>a b. a - b)\<rparr>, m))"

definition new_MaxHeap :: "int memory \<Rightarrow> int heap \<times> int memory" where
  "new_MaxHeap m =
     (let (r, m) = new_array [] m in
      (\<lparr>elements = r, heap_class = MaxHeap, compare = (\<lambda>a b. b - a)\<rparr>, m))"

definition new_CustomHeap :: "'a comparator \<Rightarrow> 'a memory \<Rightarrow> 'a heap \<times> 'a memory" where
  "new_CustomHeap compareFn m =
     (let (r, m) = new_array [] m in
      (\<lparr>elements = r, heap_class = CustomHeap, compare = (\<lambda>a b. compareFn a b)\<rparr>, m))"

definition new_BinaryHeap :: "heap_type \<Rightarrow> int memory \<Rightarrow> int heap \<times> int memory" where
  "new_BinaryHeap type m =
     (let (r, m) = new_array [] m in
      (\<lparr>elements = r, heap_class = BinaryHeap type,
        compare = (\<lambda>a b. let diff = a - b in if type = Min then diff else - diff)\<rparr>, m))"

text \<open>
  \<open>clone\<close>: every subclass constructs a new object of its own class with its own
  constructor arguments (so with the same \<open>compare\<close>), whose array is new and empty, and
  pushes the receiver's elements onto it.
\<close>

definition clone :: "'a heap \<Rightarrow> 'a memory \<Rightarrow> 'a heap \<times> 'a memory" where
  "clone this m =
     (let (r, m) = new_array [] m;
          newHeap = this\<lparr>elements := r\<rparr>;
          m = write_array (elements newHeap) (arrays m (elements newHeap) @ arrays m (elements this)) m
      in (newHeap, m))"

definition size_heap :: "'a heap \<Rightarrow> 'a memory \<Rightarrow> nat" where
  "size_heap this m = length (arrays m (elements this))"

definition isEmpty :: "'a heap \<Rightarrow> 'a memory \<Rightarrow> bool" where
  "isEmpty this m = (length (arrays m (elements this)) = 0)"

definition peek :: "'a heap \<Rightarrow> 'a memory \<Rightarrow> 'a option" where
  "peek this m = (case arrays m (elements this) of [] \<Rightarrow> None | x # _ \<Rightarrow> Some x)"

text \<open>\<open>add\<close>; the argument \<open>None\<close> is \<open>null\<close> or \<open>undefined\<close>.\<close>

definition add :: "'a heap \<Rightarrow> 'a option \<Rightarrow> 'a memory \<Rightarrow> (error + 'a heap) \<times> 'a memory" where
  "add this element' m =
     (case element' of
        None \<Rightarrow> (Inl ElementNullOrUndefined, m)
      | Some x \<Rightarrow>
          (let (newHeap, m) = clone this m;
               m = write_array (elements newHeap) (arrays m (elements newHeap) @ [x]) m;
               m = write_array (elements newHeap)
                     (bubbleUp (compare this) (arrays m (elements newHeap))
                        (length (arrays m (elements newHeap)) - 1)) m
           in (Inr newHeap, m)))"

text \<open>\<open>remove\<close> returns the pair \<open>{element, heap}\<close>.\<close>

definition remove :: "'a heap \<Rightarrow> 'a memory \<Rightarrow> ('a option \<times> 'a heap) \<times> 'a memory" where
  "remove this m =
     (if isEmpty this m then
        (let (h, m) = clone this m in ((None, h), m))
      else
        (let (newHeap, m) = clone this m;
             x = arrays m (elements newHeap) ! 0;
             m = write_array (elements newHeap)
                   ((arrays m (elements newHeap))
                      [0 := arrays m (elements newHeap) ! (length (arrays m (elements newHeap)) - 1)]) m;
             m = write_array (elements newHeap) (butlast (arrays m (elements newHeap))) m;
             m = (if length (arrays m (elements newHeap)) > 0
                  then write_array (elements newHeap)
                         (bubbleDown (compare this) (arrays m (elements newHeap)) 0) m
                  else m)
         in ((Some x, newHeap), m)))"

definition clear :: "'a heap \<Rightarrow> 'a memory \<Rightarrow> 'a heap \<times> 'a memory" where
  "clear this m = clone this m"

text \<open>
  The iterator copies the elements into a new array, drains it in place, reverses it in
  place and yields its elements; the result is the sequence yielded.
\<close>

definition iterator :: "'a heap \<Rightarrow> 'a memory \<Rightarrow> 'a list \<times> 'a memory" where
  "iterator this m =
     (let (elems, m) = new_array (arrays m (elements this)) m;
          sz = length (arrays m elems);
          m = write_array elems (iterator_loop (compare this) (arrays m elems) (int sz - 1)) m;
          m = write_array elems (rev (arrays m elems)) m
      in (arrays m elems, m))"

text \<open>
  The static \<open>from\<close> of the four classes: after the \<open>Array.isArray\<close> check each one
  constructs a heap of its class, replaces its array by a copy of the input and runs the
  same loop. The argument \<open>None\<close> is a value that is not an array.
\<close>

definition from_elements :: "'a heap \<times> 'a memory \<Rightarrow> ref \<Rightarrow> 'a heap \<times> 'a memory" where
  "from_elements hm elems =
     (let (heap, m) = hm;
          (r, m) = new_array (arrays m elems) m;
          heap = heap\<lparr>elements := r\<rparr>;
          m = write_array (elements heap)
                (from_loop (compare heap) (arrays m (elements heap))
                   (int (length (arrays m (elements heap)) div 2) - 1)) m
      in (heap, m))"

definition MinHeap_from :: "ref option \<Rightarrow> int memory \<Rightarrow> (error + int heap) \<times> int memory" where
  "MinHeap_from elems m =
     (case elems of
        None \<Rightarrow> (Inl ElementsNotArray, m)
      | Some a \<Rightarrow> (let (heap, m) = from_elements (new_MinHeap m) a in (Inr heap, m)))"

definition MaxHeap_from :: "ref option \<Rightarrow> int memory \<Rightarrow> (error + int heap) \<times> int memory" where
  "MaxHeap_from elems m =
     (case elems of
        None \<Rightarrow> (Inl ElementsNotArray, m)
      | Some a \<Rightarrow> (let (heap, m) = from_elements (new_MaxHeap m) a in (Inr heap, m)))"

definition CustomHeap_from ::
  "ref option \<Rightarrow> 'a comparator \<Rightarrow> 'a memory \<Rightarrow> (error + 'a heap) \<times> 'a memory" where
  "CustomHeap_from elems compareFn m =
     (case elems of
        None \<Rightarrow> (Inl ElementsNotArray, m)
      | Some a \<Rightarrow> (let (heap, m) = from_elements (new_CustomHeap compareFn m) a in (Inr heap, m)))"

definition BinaryHeap_from ::
  "ref option \<Rightarrow> heap_type \<Rightarrow> int memory \<Rightarrow> (error + int heap) \<times> int memory" where
  "BinaryHeap_from elems type m =
     (case elems of
        None \<Rightarrow> (Inl ElementsNotArray, m)
      | Some a \<Rightarrow> (let (heap, m) = from_elements (new_BinaryHeap type m) a in (Inr heap, m)))"

section \<open>Basic facts\<close>

text \<open>A memory with one array, and a min-heap on that array, for the examples.\<close>

abbreviation example_memory :: "int memory" where
  "example_memory \<equiv> \<lparr>arrays = (\<lambda>_. [])(0 := [1, 3, 2]), next_ref = 1\<rparr>"

abbreviation example_heap :: "int heap" where
  "example_heap \<equiv> \<lparr>elements = 0, heap_class = MinHeap, compare = default_compare\<rparr>"

lemma valid_compare_refl: "valid_compare cmp \<Longrightarrow> cmp a a = 0"
proof -
  assume "valid_compare cmp"
  then have "(cmp a a < 0) = (0 < cmp a a)" unfolding valid_compare_def by blast
  then show ?thesis by arith
qed

lemma valid_compare_flip: "valid_compare cmp \<Longrightarrow> (cmp a b < 0) = (0 < cmp b a)"
  unfolding valid_compare_def by blast

lemma valid_compare_total: "valid_compare cmp \<Longrightarrow> \<not> cmp a b \<le> 0 \<Longrightarrow> cmp b a < 0"
  unfolding valid_compare_def by (metis not_le)

lemma valid_compare_trans:
  "valid_compare cmp \<Longrightarrow> cmp a b \<le> 0 \<Longrightarrow> cmp b c \<le> 0 \<Longrightarrow> cmp a c \<le> 0"
  unfolding valid_compare_def by blast

lemma valid_compare_ge: "valid_compare cmp \<Longrightarrow> (0 \<le> cmp a b) = (cmp b a \<le> 0)"
  unfolding valid_compare_def by (metis not_le)

lemma valid_compare_default: "valid_compare default_compare"
  unfolding valid_compare_def default_compare_def by auto

lemma length_swap [simp]: "length (swap xs i j) = length xs"
  by (simp add: swap_def)

lemma mset_swap_list [simp]:
  "i < length xs \<Longrightarrow> j < length xs \<Longrightarrow> mset (swap xs i j) = mset xs"
  by (simp add: swap_def mset_swap)

lemma nth_swap:
  "i < length xs \<Longrightarrow> j < length xs \<Longrightarrow> k < length xs \<Longrightarrow>
   swap xs i j ! k = (if k = i then xs ! j else if k = j then xs ! i else xs ! k)"
  by (auto simp: swap_def nth_list_update)

lemma length_bubbleUp [simp]: "length (bubbleUp cmp xs i) = length xs"
proof (induction cmp xs i rule: bubbleUp.induct)
  case (1 compare heap index)
  show ?case
  proof (cases "index > 0 \<and> \<not> compare (heap ! ((index - 1) div 2)) (heap ! index) \<le> 0")
    case True
    then have "length (bubbleUp compare (swap heap ((index - 1) div 2) index) ((index - 1) div 2))
        = length heap"
      using "1.IH" [OF _ refl] by simp
    then show ?thesis
      using True bubbleUp.simps [of compare heap index] by (simp add: Let_def)
  next
    case False
    then show ?thesis
      using bubbleUp.simps [of compare heap index] by (auto simp: Let_def)
  qed
qed

lemma length_heapify [simp]: "length (heapify cmp xs i n) = length xs"
proof (induction cmp xs i n rule: heapify.induct)
  case (1 compare arr i sz)
  show ?case
  proof (cases "minIndex_of compare arr sz i = i")
    case True
    then show ?thesis using heapify.simps [of compare arr i sz] by (simp add: Let_def)
  next
    case False
    then have "length (heapify compare (swap arr i (minIndex_of compare arr sz i))
        (minIndex_of compare arr sz i) sz) = length arr"
      using "1.IH" [OF refl] by simp
    then show ?thesis
      using False heapify.simps [of compare arr i sz] by (simp add: Let_def)
  qed
qed

lemma bubbleDown_heapify: "bubbleDown cmp xs i = heapify cmp xs i (length xs)"
proof (induction cmp xs i rule: bubbleDown.induct)
  case (1 compare heap index)
  show ?case
  proof (cases "minIndex_of compare heap (length heap) index = index")
    case True
    then show ?thesis
      using bubbleDown.simps [of compare heap index]
        heapify.simps [of compare heap index "length heap"] by (simp add: Let_def)
  next
    case False
    then have "bubbleDown compare (swap heap index (minIndex_of compare heap (length heap) index))
          (minIndex_of compare heap (length heap) index)
        = heapify compare (swap heap index (minIndex_of compare heap (length heap) index))
          (minIndex_of compare heap (length heap) index) (length heap)"
      using "1.IH" [OF refl refl] by simp
    then show ?thesis
      using False bubbleDown.simps [of compare heap index]
        heapify.simps [of compare heap index "length heap"] by (simp add: Let_def)
  qed
qed

lemma length_bubbleDown [simp]: "length (bubbleDown cmp xs i) = length xs"
  by (simp add: bubbleDown_heapify)

subsection \<open>The heap methods in terms of the array contents\<close>

lemma clone_eq:
  assumes "elements h < next_ref m"
  shows "clone h m = (h\<lparr>elements := next_ref m\<rparr>,
           m\<lparr>arrays := (arrays m)(next_ref m := arrays m (elements h)),
             next_ref := Suc (next_ref m)\<rparr>)"
  using assms by (simp add: clone_def new_array_def write_array_def)

lemma add_eq:
  assumes "elements h < next_ref m"
  shows "add h (Some x) m = (Inr (h\<lparr>elements := next_ref m\<rparr>),
           m\<lparr>arrays := (arrays m)(next_ref m :=
                 bubbleUp (compare h) (arrays m (elements h) @ [x]) (length (arrays m (elements h)))),
             next_ref := Suc (next_ref m)\<rparr>)"
  using assms by (simp add: add_def clone_eq write_array_def)

lemma remove_eq:
  assumes "elements h < next_ref m" and "arrays m (elements h) \<noteq> []"
  shows "remove h m = ((Some (arrays m (elements h) ! 0), h\<lparr>elements := next_ref m\<rparr>),
           m\<lparr>arrays := (arrays m)(next_ref m :=
                 (let ys = butlast ((arrays m (elements h))[0 := last (arrays m (elements h))])
                  in if ys = [] then ys else bubbleDown (compare h) ys 0)),
             next_ref := Suc (next_ref m)\<rparr>)"
  using assms by (simp add: remove_def isEmpty_def clone_eq write_array_def Let_def last_conv_nth)

lemma remove_empty_eq:
  assumes "elements h < next_ref m" and "arrays m (elements h) = []"
  shows "remove h m = ((None, h\<lparr>elements := next_ref m\<rparr>),
           m\<lparr>arrays := (arrays m)(next_ref m := []), next_ref := Suc (next_ref m)\<rparr>)"
  using assms by (simp add: remove_def isEmpty_def clone_eq)

lemma iterator_eq:
  "iterator h m =
     (rev (iterator_loop (compare h) (arrays m (elements h)) (int (length (arrays m (elements h))) - 1)),
      m\<lparr>arrays := (arrays m)(next_ref m :=
            rev (iterator_loop (compare h) (arrays m (elements h)) (int (length (arrays m (elements h))) - 1))),
        next_ref := Suc (next_ref m)\<rparr>)"
  by (simp add: iterator_def new_array_def write_array_def Let_def)

section \<open>The heap ordering\<close>

text \<open>
  The ordering of the backing array: every index that has a child at \<open>2 i + 1\<close> or
  \<open>2 i + 2\<close> inside the array compares at most \<open>0\<close> against that child.
\<close>

definition heap_ok :: "'a comparator \<Rightarrow> 'a list \<Rightarrow> bool" where
  "heap_ok cmp h \<longleftrightarrow>
     (\<forall>i \<in> {0..<length h}.
        (2 * i + 1 < length h \<longrightarrow> cmp (h ! i) (h ! (2 * i + 1)) \<le> 0) \<and>
        (2 * i + 2 < length h \<longrightarrow> cmp (h ! i) (h ! (2 * i + 2)) \<le> 0))"

definition heap_invariant :: "'a heap \<Rightarrow> 'a memory \<Rightarrow> bool" where
  "heap_invariant h m = heap_ok (compare h) (arrays m (elements h))"

text \<open>
  The ordering between the indices from \<open>lo\<close> on and their children below \<open>n\<close>, and the
  two invariants of the loops of \<open>heapify\<close> and \<open>bubbleUp\<close>: the ordering holds except
  between one index \<open>k\<close> and its children (its parent), and the parent of \<open>k\<close> compares
  at most \<open>0\<close> against the children of \<open>k\<close>.
\<close>

definition heap_range :: "'a comparator \<Rightarrow> 'a list \<Rightarrow> nat \<Rightarrow> nat \<Rightarrow> bool" where
  "heap_range cmp xs lo n \<longleftrightarrow>
     (\<forall>i c. lo \<le> i \<and> c < n \<and> (c = 2 * i + 1 \<or> c = 2 * i + 2) \<longrightarrow> cmp (xs ! i) (xs ! c) \<le> 0)"

definition sift_inv :: "'a comparator \<Rightarrow> 'a list \<Rightarrow> nat \<Rightarrow> nat \<Rightarrow> nat \<Rightarrow> bool" where
  "sift_inv cmp xs lo n k \<longleftrightarrow>
     (\<forall>i c. lo \<le> i \<and> i \<noteq> k \<and> c < n \<and> (c = 2 * i + 1 \<or> c = 2 * i + 2)
        \<longrightarrow> cmp (xs ! i) (xs ! c) \<le> 0) \<and>
     (\<forall>p c. lo \<le> p \<and> (k = 2 * p + 1 \<or> k = 2 * p + 2) \<and> c < n \<and> (c = 2 * k + 1 \<or> c = 2 * k + 2)
        \<longrightarrow> cmp (xs ! p) (xs ! c) \<le> 0)"

definition up_inv :: "'a comparator \<Rightarrow> 'a list \<Rightarrow> nat \<Rightarrow> bool" where
  "up_inv cmp xs k \<longleftrightarrow>
     (\<forall>i c. c < length xs \<and> c \<noteq> k \<and> (c = 2 * i + 1 \<or> c = 2 * i + 2)
        \<longrightarrow> cmp (xs ! i) (xs ! c) \<le> 0) \<and>
     (\<forall>p c. (k = 2 * p + 1 \<or> k = 2 * p + 2) \<and> c < length xs \<and> (c = 2 * k + 1 \<or> c = 2 * k + 2)
        \<longrightarrow> cmp (xs ! p) (xs ! c) \<le> 0)"

lemma heap_ok_range: "heap_ok cmp xs = heap_range cmp xs 0 (length xs)"
  unfolding heap_ok_def heap_range_def by (auto; force)

lemma valid_compare_less_le:
  assumes "valid_compare cmp" and "cmp a b < 0" and "cmp b c \<le> 0"
  shows "cmp a c < 0"
proof (rule ccontr)
  assume "\<not> cmp a c < 0"
  then have ca: "cmp c a \<le> 0" using valid_compare_ge [OF assms(1), of a c] by simp
  have "cmp b a \<le> 0" by (rule valid_compare_trans [OF assms(1) assms(3) ca])
  moreover have "0 < cmp b a" using valid_compare_flip [OF assms(1), of a b] assms(2) by simp
  ultimately show False by simp
qed

lemma valid_compare_le_less:
  assumes "valid_compare cmp" and "cmp a b \<le> 0" and "cmp b c < 0"
  shows "cmp a c < 0"
proof (rule ccontr)
  assume "\<not> cmp a c < 0"
  then have ca: "cmp c a \<le> 0" using valid_compare_ge [OF assms(1), of a c] by simp
  have "cmp c b \<le> 0" by (rule valid_compare_trans [OF assms(1) ca assms(2)])
  moreover have "0 < cmp c b" using valid_compare_flip [OF assms(1), of b c] assms(3) by simp
  ultimately show False by simp
qed

lemma minIndex_of_self:
  assumes "valid_compare cmp" and "minIndex_of cmp xs n k = k"
    and "c < n" and "c = 2 * k + 1 \<or> c = 2 * k + 2"
  shows "cmp (xs ! k) (xs ! c) \<le> 0"
proof -
  have "\<not> cmp (xs ! c) (xs ! k) < 0"
    using assms(2-4) by (auto simp: minIndex_of_def Let_def split: if_splits)
  then show ?thesis using valid_compare_ge [OF assms(1), of "xs ! c" "xs ! k"] by simp
qed

lemma minIndex_of_child:
  assumes vc: "valid_compare cmp" and s: "minIndex_of cmp xs n k = s" and ne: "s \<noteq> k"
  shows "(s = 2 * k + 1 \<or> s = 2 * k + 2) \<and> s < n \<and> cmp (xs ! s) (xs ! k) < 0 \<and>
         (\<forall>c. c < n \<and> (c = 2 * k + 1 \<or> c = 2 * k + 2) \<longrightarrow> cmp (xs ! s) (xs ! c) \<le> 0)"
proof -
  let ?l = "2 * k + 1" and ?r = "2 * k + 2"
  have refl: "\<And>a. cmp a a \<le> 0" using valid_compare_refl [OF vc] by simp
  have nl: "\<And>a b. \<not> cmp a b < 0 \<Longrightarrow> cmp b a \<le> 0"
    using valid_compare_ge [OF vc] by (simp add: not_less)
  have le: "\<And>a b. cmp a b < 0 \<Longrightarrow> cmp a b \<le> 0" by simp
  consider (left) "s = ?l" "?l < n" "cmp (xs ! ?l) (xs ! k) < 0"
      "\<not> (?r < n \<and> cmp (xs ! ?r) (xs ! ?l) < 0)"
    | (right1) "s = ?r" "?r < n" "?l < n" "cmp (xs ! ?l) (xs ! k) < 0" "cmp (xs ! ?r) (xs ! ?l) < 0"
    | (right2) "s = ?r" "?r < n" "\<not> (?l < n \<and> cmp (xs ! ?l) (xs ! k) < 0)" "cmp (xs ! ?r) (xs ! k) < 0"
    using s ne by (auto simp: minIndex_of_def Let_def split: if_splits)
  then show ?thesis
  proof cases
    case left
    then show ?thesis using refl nl by auto
  next
    case right1
    have "cmp (xs ! ?r) (xs ! k) < 0"
      using right1 valid_compare_less_le [OF vc, of "xs ! ?r" "xs ! ?l" "xs ! k"] by simp
    then show ?thesis using right1 refl by auto
  next
    case right2
    have "?l < n \<Longrightarrow> cmp (xs ! ?r) (xs ! ?l) \<le> 0"
    proof -
      assume "?l < n"
      then have "cmp (xs ! k) (xs ! ?l) \<le> 0" using right2 nl by blast
      then show ?thesis
        using right2 valid_compare_trans [OF vc, of "xs ! ?r" "xs ! k" "xs ! ?l"] by simp
    qed
    then show ?thesis using right2 refl by auto
  qed
qed

lemma heapify_heap_range:
  "valid_compare cmp \<Longrightarrow> n \<le> length xs \<Longrightarrow> k < n \<Longrightarrow> sift_inv cmp xs lo n k \<Longrightarrow>
   heap_range cmp (heapify cmp xs k n) lo n"
proof (induction cmp xs k n rule: heapify.induct)
  case (1 compare arr i sz)
  note vc = \<open>valid_compare compare\<close>
  let ?s = "minIndex_of compare arr sz i"
  have p1: "\<And>j c. lo \<le> j \<Longrightarrow> j \<noteq> i \<Longrightarrow> c < sz \<Longrightarrow> c = 2 * j + 1 \<or> c = 2 * j + 2
      \<Longrightarrow> compare (arr ! j) (arr ! c) \<le> 0"
    using "1.prems"(4) unfolding sift_inv_def by blast
  have p2: "\<And>p c. lo \<le> p \<Longrightarrow> i = 2 * p + 1 \<or> i = 2 * p + 2 \<Longrightarrow> c < sz
      \<Longrightarrow> c = 2 * i + 1 \<or> c = 2 * i + 2 \<Longrightarrow> compare (arr ! p) (arr ! c) \<le> 0"
    using "1.prems"(4) unfolding sift_inv_def by blast
  show ?case
  proof (cases "?s = i")
    case True
    have "heap_range compare arr lo sz"
      unfolding heap_range_def
    proof (intro allI impI)
      fix j c
      assume a: "lo \<le> j \<and> c < sz \<and> (c = 2 * j + 1 \<or> c = 2 * j + 2)"
      show "compare (arr ! j) (arr ! c) \<le> 0"
      proof (cases "j = i")
        case True
        then show ?thesis using a minIndex_of_self [OF vc \<open>?s = i\<close>, of c] by blast
      next
        case False
        then show ?thesis using a p1 [of j c] by blast
      qed
    qed
    then show ?thesis using True heapify.simps [of compare arr i sz] by (simp add: Let_def)
  next
    case False
    have ch: "(?s = 2 * i + 1 \<or> ?s = 2 * i + 2) \<and> ?s < sz \<and> compare (arr ! ?s) (arr ! i) < 0"
      and mn: "\<And>c. c < sz \<Longrightarrow> c = 2 * i + 1 \<or> c = 2 * i + 2 \<Longrightarrow> compare (arr ! ?s) (arr ! c) \<le> 0"
      using minIndex_of_child [OF vc refl False] by blast+
    define s where "s = ?s"
    define arr' where "arr' = swap arr i s"
    have s: "(s = 2 * i + 1 \<or> s = 2 * i + 2)" "s < sz" "compare (arr ! s) (arr ! i) < 0" "s \<noteq> i"
      using ch by (auto simp: s_def)
    have len: "i < length arr" "s < length arr" using "1.prems" s by auto
    have nth: "\<And>j. j < length arr \<Longrightarrow>
        arr' ! j = (if j = i then arr ! s else if j = s then arr ! i else arr ! j)"
      unfolding arr'_def using len by (simp add: nth_swap)
    have "sift_inv compare arr' lo sz s"
      unfolding sift_inv_def
    proof (intro conjI allI impI)
      fix j c
      assume a: "lo \<le> j \<and> j \<noteq> s \<and> c < sz \<and> (c = 2 * j + 1 \<or> c = 2 * j + 2)"
      then have cl: "c < length arr" "j < length arr" using "1.prems"(2) by auto
      show "compare (arr' ! j) (arr' ! c) \<le> 0"
      proof (cases "j = i")
        case True
        show ?thesis
        proof (cases "c = s")
          case True
          then show ?thesis using \<open>j = i\<close> s nth cl by simp
        next
          case False
          then have "compare (arr ! s) (arr ! c) \<le> 0" using a \<open>j = i\<close> mn [of c] s_def by blast
          moreover have "c \<noteq> i" using a \<open>j = i\<close> by auto
          ultimately show ?thesis using \<open>j = i\<close> False nth cl by simp
        qed
      next
        case False
        have cs: "c \<noteq> s" using a False s by auto
        show ?thesis
        proof (cases "c = i")
          case True
          then have "compare (arr ! j) (arr ! s) \<le> 0" using a s p2 [of j s] by blast
          then show ?thesis using True False a nth cl s by simp
        next
          case ci: False
          have "compare (arr ! j) (arr ! c) \<le> 0" using a False p1 [of j c] by blast
          then show ?thesis using ci cs False a nth cl by simp
        qed
      qed
    next
      fix p c
      assume a: "lo \<le> p \<and> (s = 2 * p + 1 \<or> s = 2 * p + 2) \<and> c < sz \<and> (c = 2 * s + 1 \<or> c = 2 * s + 2)"
      then have pi: "p = i" using s by auto
      have cl: "c < length arr" using a "1.prems"(2) by auto
      have "lo \<le> s" using a by auto
      then have "compare (arr ! s) (arr ! c) \<le> 0" using a s p1 [of s c] by blast
      moreover have "c \<noteq> i" "c \<noteq> s" using a s by auto
      ultimately show "compare (arr' ! p) (arr' ! c) \<le> 0" using pi nth cl len by simp
    qed
    then have "heap_range compare (heapify compare arr' s sz) lo sz"
      using "1.IH" [OF refl False vc] "1.prems"(2) s by (simp add: arr'_def s_def)
    then show ?thesis
      using False heapify.simps [of compare arr i sz] by (simp add: Let_def arr'_def s_def)
  qed
qed

lemma bubbleUp_heap_range:
  "valid_compare cmp \<Longrightarrow> k < length xs \<Longrightarrow> up_inv cmp xs k \<Longrightarrow>
   heap_range cmp (bubbleUp cmp xs k) 0 (length xs)"
proof (induction cmp xs k rule: bubbleUp.induct)
  case (1 compare heap i)
  note vc = \<open>valid_compare compare\<close>
  let ?p = "(i - 1) div 2"
  have p1: "\<And>j c. c < length heap \<Longrightarrow> c \<noteq> i \<Longrightarrow> c = 2 * j + 1 \<or> c = 2 * j + 2
      \<Longrightarrow> compare (heap ! j) (heap ! c) \<le> 0"
    using "1.prems"(3) unfolding up_inv_def by blast
  have p2: "\<And>p c. i = 2 * p + 1 \<or> i = 2 * p + 2 \<Longrightarrow> c < length heap
      \<Longrightarrow> c = 2 * i + 1 \<or> c = 2 * i + 2 \<Longrightarrow> compare (heap ! p) (heap ! c) \<le> 0"
    using "1.prems"(3) unfolding up_inv_def by blast
  consider (root) "i = 0" | (stop) "i > 0" "compare (heap ! ?p) (heap ! i) \<le> 0"
    | (up) "i > 0" "\<not> compare (heap ! ?p) (heap ! i) \<le> 0" by linarith
  then show ?case
  proof cases
    case root
    have "heap_range compare heap 0 (length heap)"
      unfolding heap_range_def using p1 root by auto
    then show ?thesis using root bubbleUp.simps [of compare heap i] by simp
  next
    case stop
    have "heap_range compare heap 0 (length heap)"
      unfolding heap_range_def
    proof (intro allI impI)
      fix j c
      assume a: "0 \<le> j \<and> c < length heap \<and> (c = 2 * j + 1 \<or> c = 2 * j + 2)"
      show "compare (heap ! j) (heap ! c) \<le> 0"
      proof (cases "c = i")
        case True
        then have "j = ?p" using a by auto
        then show ?thesis using stop True by simp
      next
        case False
        then show ?thesis using a p1 [of c j] by blast
      qed
    qed
    then show ?thesis using stop bubbleUp.simps [of compare heap i] by (simp add: Let_def)
  next
    case up
    define p where "p = ?p"
    define heap' where "heap' = swap heap p i"
    have ip: "i = 2 * p + 1 \<or> i = 2 * p + 2" "p < i" using up unfolding p_def by auto
    have lt: "compare (heap ! i) (heap ! p) < 0"
      using up valid_compare_total [OF vc, of "heap ! p" "heap ! i"] by (simp add: p_def)
    have len: "i < length heap" "p < length heap" using "1.prems"(2) ip by auto
    have nth: "\<And>j. j < length heap \<Longrightarrow>
        heap' ! j = (if j = p then heap ! i else if j = i then heap ! p else heap ! j)"
      unfolding heap'_def using len by (simp add: nth_swap)
    have "up_inv compare heap' p"
      unfolding up_inv_def
    proof (intro conjI allI impI)
      fix j c
      assume "c < length heap' \<and> c \<noteq> p \<and> (c = 2 * j + 1 \<or> c = 2 * j + 2)"
      then have a: "c < length heap" "c \<noteq> p" "c = 2 * j + 1 \<or> c = 2 * j + 2" "j < length heap" "j \<noteq> c"
        by (auto simp: heap'_def)
      show "compare (heap' ! j) (heap' ! c) \<le> 0"
      proof (cases "c = i")
        case True
        then have "j = p" using a ip by auto
        then show ?thesis using True lt nth len ip by simp
      next
        case False
        consider (jp) "j = p" | (ji) "j = i" | (other) "j \<noteq> p" "j \<noteq> i" by blast
        then show ?thesis
        proof cases
          case jp
          have "compare (heap ! p) (heap ! c) \<le> 0" using a False jp p1 [of c p] by blast
          then have "compare (heap ! i) (heap ! c) \<le> 0"
            using lt valid_compare_trans [OF vc, of "heap ! i" "heap ! p" "heap ! c"] by simp
          then show ?thesis using jp False a nth by simp
        next
          case ji
          have "compare (heap ! p) (heap ! c) \<le> 0" using a ji ip p2 [of p c] by blast
          then show ?thesis using ji False a nth ip by simp
        next
          case other
          have "compare (heap ! j) (heap ! c) \<le> 0" using a False p1 [of c j] by blast
          then show ?thesis using other False a nth by simp
        qed
      qed
    next
      fix q c
      assume "(p = 2 * q + 1 \<or> p = 2 * q + 2) \<and> c < length heap' \<and> (c = 2 * p + 1 \<or> c = 2 * p + 2)"
      then have a: "p = 2 * q + 1 \<or> p = 2 * q + 2" "c < length heap" "c = 2 * p + 1 \<or> c = 2 * p + 2"
        by (auto simp: heap'_def)
      have q: "q \<noteq> p" "q \<noteq> i" "q < length heap" "c \<noteq> p" using a ip len by auto
      have qp: "compare (heap ! q) (heap ! p) \<le> 0" using a ip len p1 [of p q] by auto
      show "compare (heap' ! q) (heap' ! c) \<le> 0"
      proof (cases "c = i")
        case True
        then show ?thesis using qp q nth a by simp
      next
        case False
        have "compare (heap ! p) (heap ! c) \<le> 0" using a False p1 [of c p] by blast
        then have "compare (heap ! q) (heap ! c) \<le> 0"
          using qp valid_compare_trans [OF vc, of "heap ! q" "heap ! p" "heap ! c"] by simp
        then show ?thesis using False q nth a by simp
      qed
    qed
    then have "heap_range compare (bubbleUp compare heap' p) 0 (length heap')"
      using "1.IH" [OF _ refl _ vc] up len by (simp add: heap'_def p_def)
    then show ?thesis
      using up bubbleUp.simps [of compare heap i] by (simp add: Let_def heap'_def p_def)
  qed
qed

lemma heap_range_root_least:
  assumes vc: "valid_compare cmp" and hr: "heap_range cmp xs 0 n"
  shows "i < n \<Longrightarrow> cmp (xs ! 0) (xs ! i) \<le> 0"
proof (induction i rule: less_induct)
  case (less i)
  show ?case
  proof (cases "i = 0")
    case True
    then show ?thesis using valid_compare_refl [OF vc, of "xs ! 0"] by simp
  next
    case False
    define p where "p = (i - 1) div 2"
    have ip: "i = 2 * p + 1 \<or> i = 2 * p + 2" "p < i" using False unfolding p_def by auto
    have "cmp (xs ! p) (xs ! i) \<le> 0"
      using hr ip less.prems unfolding heap_range_def by blast
    moreover have "cmp (xs ! 0) (xs ! p) \<le> 0" using less.IH [of p] ip less.prems by simp
    ultimately show ?thesis
      using valid_compare_trans [OF vc, of "xs ! 0" "xs ! p" "xs ! i"] by simp
  qed
qed

lemma length_from_loop [simp]: "length (from_loop cmp xs i) = length xs"
proof (induction cmp xs i rule: from_loop.induct)
  case (1 compare heap i)
  show ?case
  proof (cases "i \<ge> 0")
    case True
    then show ?thesis
      using "1.IH" [OF True] from_loop.simps [of compare heap i] by simp
  next
    case False
    then show ?thesis using from_loop.simps [of compare heap i] by simp
  qed
qed

lemma from_loop_heap_range:
  "valid_compare cmp \<Longrightarrow> i < int (length xs) \<Longrightarrow> heap_range cmp xs (nat (i + 1)) (length xs) \<Longrightarrow>
   heap_range cmp (from_loop cmp xs i) 0 (length xs)"
proof (induction cmp xs i rule: from_loop.induct)
  case (1 compare heap i)
  show ?case
  proof (cases "i \<ge> 0")
    case False
    then show ?thesis using "1.prems" from_loop.simps [of compare heap i] by simp
  next
    case True
    define heap' where "heap' = bubbleDown compare heap (nat i)"
    have "sift_inv compare heap (nat i) (length heap) (nat i)"
      using "1.prems"(3) True unfolding sift_inv_def heap_range_def
      by (auto simp: nat_add_distrib)
    then have "heap_range compare heap' (nat i) (length heap)"
      using heapify_heap_range [of compare "length heap" heap "nat i" "nat i"] "1.prems" True
      by (simp add: heap'_def bubbleDown_heapify)
    then have hr: "heap_range compare heap' (nat (i - 1 + 1)) (length heap')"
      using True by (simp add: heap'_def)
    have lt: "i - 1 < int (length heap')" using "1.prems"(2) by (simp add: heap'_def)
    have "heap_range compare (from_loop compare heap' (i - 1)) 0 (length heap')"
      using "1.IH" [OF True "1.prems"(1)] lt hr unfolding heap'_def by blast
    then show ?thesis
      using True from_loop.simps [of compare heap i] by (simp add: heap'_def)
  qed
qed

lemma from_loop_heap_ok:
  assumes "valid_compare cmp"
  shows "heap_ok cmp (from_loop cmp xs (int (length xs div 2) - 1))"
proof -
  have "heap_range cmp xs (nat (int (length xs div 2) - 1 + 1)) (length xs)"
    unfolding heap_range_def by auto
  moreover have "int (length xs div 2) - 1 < int (length xs)" by linarith
  ultimately have "heap_range cmp (from_loop cmp xs (int (length xs div 2) - 1)) 0 (length xs)"
    using from_loop_heap_range [OF assms] by blast
  moreover have "length (from_loop cmp xs (int (length xs div 2) - 1)) = length xs"
    by simp
  ultimately show ?thesis by (simp add: heap_ok_range)
qed

lemma heap_ok_push:
  assumes vc: "valid_compare cmp" and ok: "heap_ok cmp xs"
  shows "heap_ok cmp (bubbleUp cmp (xs @ [x]) (length xs))"
proof -
  have hr: "\<And>i c. c < length xs \<Longrightarrow> c = 2 * i + 1 \<or> c = 2 * i + 2 \<Longrightarrow> cmp (xs ! i) (xs ! c) \<le> 0"
    using ok unfolding heap_ok_range heap_range_def by blast
  have "up_inv cmp (xs @ [x]) (length xs)"
    unfolding up_inv_def
  proof (intro conjI allI impI)
    fix i c
    assume "c < length (xs @ [x]) \<and> c \<noteq> length xs \<and> (c = 2 * i + 1 \<or> c = 2 * i + 2)"
    then have a: "c < length xs" "c = 2 * i + 1 \<or> c = 2 * i + 2" "i < length xs" by auto
    then show "cmp ((xs @ [x]) ! i) ((xs @ [x]) ! c) \<le> 0"
      using hr [of c i] by (simp add: nth_append)
  next
    fix p c
    assume "(length xs = 2 * p + 1 \<or> length xs = 2 * p + 2) \<and> c < length (xs @ [x]) \<and>
        (c = 2 * length xs + 1 \<or> c = 2 * length xs + 2)"
    then have False by auto
    then show "cmp ((xs @ [x]) ! p) ((xs @ [x]) ! c) \<le> 0" ..
  qed
  then have "heap_range cmp (bubbleUp cmp (xs @ [x]) (length xs)) 0 (length (xs @ [x]))"
    using bubbleUp_heap_range [OF vc, of "length xs" "xs @ [x]"] by simp
  then show ?thesis by (simp add: heap_ok_range)
qed

lemma heap_ok_pop:
  assumes vc: "valid_compare cmp" and ok: "heap_ok cmp xs"
  shows "heap_ok cmp (let ys = butlast (xs[0 := last xs]) in if ys = [] then ys else bubbleDown cmp ys 0)"
proof -
  define ys where "ys = butlast (xs[0 := last xs])"
  have hr: "\<And>i c. c < length xs \<Longrightarrow> c = 2 * i + 1 \<or> c = 2 * i + 2 \<Longrightarrow> cmp (xs ! i) (xs ! c) \<le> 0"
    using ok unfolding heap_ok_range heap_range_def by blast
  show ?thesis
  proof (cases "ys = []")
    case True
    then show ?thesis by (simp add: ys_def [symmetric] heap_ok_def)
  next
    case False
    have len: "length ys = length xs - 1" by (simp add: ys_def)
    have nth: "\<And>j. 0 < j \<Longrightarrow> j < length ys \<Longrightarrow> ys ! j = xs ! j"
      by (simp add: ys_def nth_butlast)
    have "sift_inv cmp ys 0 (length ys) 0"
      unfolding sift_inv_def
    proof (intro conjI allI impI)
      fix i c
      assume "0 \<le> i \<and> i \<noteq> 0 \<and> c < length ys \<and> (c = 2 * i + 1 \<or> c = 2 * i + 2)"
      then have a: "0 < i" "c < length ys" "c = 2 * i + 1 \<or> c = 2 * i + 2" "i < length ys" "0 < c"
        by auto
      then have "cmp (xs ! i) (xs ! c) \<le> 0" using hr [of c i] len by simp
      then show "cmp (ys ! i) (ys ! c) \<le> 0" using a nth by simp
    next
      fix p c :: nat
      assume "0 \<le> p \<and> (0 = 2 * p + 1 \<or> 0 = 2 * p + 2) \<and> c < length ys \<and> (c = 2 * 0 + 1 \<or> c = 2 * 0 + 2)"
      then have False by auto
      then show "cmp (ys ! p) (ys ! c) \<le> 0" ..
    qed
    then have "heap_range cmp (heapify cmp ys 0 (length ys)) 0 (length ys)"
      using heapify_heap_range [OF vc, of "length ys" ys 0 0] False by simp
    then have "heap_ok cmp (bubbleDown cmp ys 0)"
      by (simp add: heap_ok_range bubbleDown_heapify)
    then show ?thesis using False by (simp add: ys_def [symmetric])
  qed
qed

lemma from_elements_eq:
  "from_elements (h, m) a =
     (h\<lparr>elements := next_ref m\<rparr>,
      m\<lparr>arrays := (arrays m)(next_ref m :=
            from_loop (compare h) (arrays m a) (int (length (arrays m a) div 2) - 1)),
        next_ref := Suc (next_ref m)\<rparr>)"
  by (simp add: from_elements_def new_array_def write_array_def Let_def)

lemma from_elements_invariant:
  assumes "valid_compare (compare h)" and "from_elements (h, m) a = (h', m')"
  shows "heap_invariant h' m'"
  using assms from_loop_heap_ok [of "compare h" "arrays m a"]
  by (auto simp: from_elements_eq heap_invariant_def)

lemma valid_compare_MinHeap: "valid_compare (\<lambda>a b :: int. a - b)"
  unfolding valid_compare_def by auto

lemma valid_compare_MaxHeap: "valid_compare (\<lambda>a b :: int. b - a)"
  unfolding valid_compare_def by auto

lemma valid_compare_BinaryHeap:
  "valid_compare (\<lambda>a b :: int. let diff = a - b in if type = Min then diff else - diff)"
  unfolding valid_compare_def by (auto simp: Let_def)

text \<open>
  C1. After \<open>add\<close> and after \<open>remove\<close> on a heap whose array satisfies the heap ordering
  under the heap's comparator, and after \<open>from\<close> of each of the four classes on any array,
  the backing array of the heap returned satisfies the heap ordering under its comparator.
  The comparator follows the comparator contract; those of \<open>MinHeap\<close>, \<open>MaxHeap\<close> and
  \<open>BinaryHeap\<close> do.
\<close>

theorem heap_ordering_maintained:
  "(valid_compare (compare h) \<and> elements h < next_ref m \<and> heap_invariant h m \<longrightarrow>
      (case add h (Some x) m of
         (r, m') \<Rightarrow> (case r of Inr h' \<Rightarrow> heap_invariant h' m' | Inl e \<Rightarrow> False)) \<and>
      (case remove h m of ((e, h'), m') \<Rightarrow> heap_invariant h' m')) \<and>
   (case MinHeap_from (Some a) mi of
      (r, m') \<Rightarrow> (case r of Inr h' \<Rightarrow> heap_invariant h' m' | Inl e \<Rightarrow> False)) \<and>
   (case MaxHeap_from (Some a) mi of
      (r, m') \<Rightarrow> (case r of Inr h' \<Rightarrow> heap_invariant h' m' | Inl e \<Rightarrow> False)) \<and>
   (case BinaryHeap_from (Some a) type mi of
      (r, m') \<Rightarrow> (case r of Inr h' \<Rightarrow> heap_invariant h' m' | Inl e \<Rightarrow> False)) \<and>
   (valid_compare compareFn \<longrightarrow>
      (case CustomHeap_from (Some a) compareFn mc of
         (r, m') \<Rightarrow> (case r of Inr h' \<Rightarrow> heap_invariant h' m' | Inl e \<Rightarrow> False)))"
proof (intro conjI impI)
  assume a: "valid_compare (compare h) \<and> elements h < next_ref m \<and> heap_invariant h m"
  then show "case add h (Some x) m of
         (r, m') \<Rightarrow> (case r of Inr h' \<Rightarrow> heap_invariant h' m' | Inl e \<Rightarrow> False)"
    using heap_ok_push [of "compare h" "arrays m (elements h)" x]
    by (simp add: add_eq heap_invariant_def)
  show "case remove h m of ((e, h'), m') \<Rightarrow> heap_invariant h' m'"
  proof (cases "arrays m (elements h) = []")
    case True
    then show ?thesis using a by (simp add: remove_empty_eq heap_invariant_def heap_ok_def)
  next
    case False
    then show ?thesis
      using a heap_ok_pop [of "compare h" "arrays m (elements h)"]
      by (simp add: remove_eq heap_invariant_def)
  qed
next
  show "case MinHeap_from (Some a) mi of
      (r, m') \<Rightarrow> (case r of Inr h' \<Rightarrow> heap_invariant h' m' | Inl e \<Rightarrow> False)"
    using valid_compare_MinHeap
    by (auto simp: MinHeap_from_def new_MinHeap_def new_array_def
        split: prod.splits intro!: from_elements_invariant)
next
  show "case MaxHeap_from (Some a) mi of
      (r, m') \<Rightarrow> (case r of Inr h' \<Rightarrow> heap_invariant h' m' | Inl e \<Rightarrow> False)"
    using valid_compare_MaxHeap
    by (auto simp: MaxHeap_from_def new_MaxHeap_def new_array_def
        split: prod.splits intro!: from_elements_invariant)
next
  show "case BinaryHeap_from (Some a) type mi of
      (r, m') \<Rightarrow> (case r of Inr h' \<Rightarrow> heap_invariant h' m' | Inl e \<Rightarrow> False)"
    using valid_compare_BinaryHeap [of type]
    by (auto simp: BinaryHeap_from_def new_BinaryHeap_def new_array_def
        split: prod.splits intro!: from_elements_invariant)
next
  assume "valid_compare compareFn"
  then show "case CustomHeap_from (Some a) compareFn mc of
         (r, m') \<Rightarrow> (case r of Inr h' \<Rightarrow> heap_invariant h' m' | Inl e \<Rightarrow> False)"
    by (auto simp: CustomHeap_from_def new_CustomHeap_def new_array_def
        split: prod.splits intro!: from_elements_invariant)
qed

theorem heap_ordering_maintained_witness:
  "valid_compare (compare example_heap) \<and> elements example_heap < next_ref example_memory \<and>
   heap_invariant example_heap example_memory \<and>
   (case add example_heap (Some 0) example_memory of
      (r, m') \<Rightarrow> (case r of Inr h' \<Rightarrow> heap_invariant h' m' | Inl e \<Rightarrow> False)) \<and>
   (case remove example_heap example_memory of ((e, h'), m') \<Rightarrow> heap_invariant h' m') \<and>
   (case MinHeap_from (Some 0) example_memory of
      (r, m') \<Rightarrow> (case r of Inr h' \<Rightarrow> heap_invariant h' m' | Inl e \<Rightarrow> False)) \<and>
   (case MaxHeap_from (Some 0) example_memory of
      (r, m') \<Rightarrow> (case r of Inr h' \<Rightarrow> heap_invariant h' m' | Inl e \<Rightarrow> False)) \<and>
   (case BinaryHeap_from (Some 0) Max example_memory of
      (r, m') \<Rightarrow> (case r of Inr h' \<Rightarrow> heap_invariant h' m' | Inl e \<Rightarrow> False)) \<and>
   valid_compare default_compare \<and>
   (case CustomHeap_from (Some 0) default_compare example_memory of
      (r, m') \<Rightarrow> (case r of Inr h' \<Rightarrow> heap_invariant h' m' | Inl e \<Rightarrow> False))"
proof -
  have ok: "heap_ok default_compare [1, 3, 2]"
    by (simp add: heap_ok_def default_compare_def atLeast0_lessThan_Suc eval_nat_numeral)
  have h: "valid_compare (compare example_heap) \<and> elements example_heap < next_ref example_memory \<and>
      heap_invariant example_heap example_memory"
    using ok by (simp add: valid_compare_default heap_invariant_def)
  show ?thesis
    using h valid_compare_default
      heap_ordering_maintained [where h = example_heap and m = example_memory and x = 0
        and a = 0 and mi = example_memory and type = Max and compareFn = default_compare
        and mc = example_memory]
    by (simp only: simp_thms)
qed

text \<open>
  The constructors return a heap that satisfies the ordering, and \<open>clear\<close> keeps it, so every
  heap that the methods of the library produce satisfies it.
\<close>

lemma constructors_invariant:
  "(case new_MinHeap mi of (h, m) \<Rightarrow> heap_invariant h m) \<and>
   (case new_MaxHeap mi of (h, m) \<Rightarrow> heap_invariant h m) \<and>
   (case new_BinaryHeap type mi of (h, m) \<Rightarrow> heap_invariant h m) \<and>
   (case new_CustomHeap compareFn mc of (h, m) \<Rightarrow> heap_invariant h m)"
  by (simp add: new_MinHeap_def new_MaxHeap_def new_BinaryHeap_def new_CustomHeap_def
      new_array_def heap_invariant_def heap_ok_def)

lemma clear_invariant:
  assumes "elements h < next_ref m" and "heap_invariant h m"
  shows "case clear h m of (c, m') \<Rightarrow> heap_invariant c m'"
  using assms by (simp add: clear_def clone_eq heap_invariant_def)

section \<open>Iterating a heap\<close>

lemma mset_heapify [simp]:
  "n \<le> length xs \<Longrightarrow> k < n \<Longrightarrow> mset (heapify cmp xs k n) = mset xs"
proof (induction cmp xs k n rule: heapify.induct)
  case (1 compare arr i sz)
  let ?s = "minIndex_of compare arr sz i"
  show ?case
  proof (cases "?s = i")
    case True
    then show ?thesis using heapify.simps [of compare arr i sz] by (simp add: Let_def)
  next
    case False
    then have s: "?s < sz" using minIndex_of_cases [of compare arr sz i] by auto
    then have "mset (heapify compare (swap arr i ?s) ?s sz) = mset (swap arr i ?s)"
      using "1.IH" [OF refl False] "1.prems" by simp
    then show ?thesis
      using False s "1.prems" heapify.simps [of compare arr i sz] by (simp add: Let_def)
  qed
qed

lemma mset_bubbleDown [simp]: "k < length xs \<Longrightarrow> mset (bubbleDown cmp xs k) = mset xs"
  by (simp add: bubbleDown_heapify)

lemma mset_bubbleUp [simp]: "k < length xs \<Longrightarrow> mset (bubbleUp cmp xs k) = mset xs"
proof (induction cmp xs k rule: bubbleUp.induct)
  case (1 compare heap i)
  show ?case
  proof (cases "i > 0 \<and> \<not> compare (heap ! ((i - 1) div 2)) (heap ! i) \<le> 0")
    case True
    then have "mset (bubbleUp compare (swap heap ((i - 1) div 2) i) ((i - 1) div 2))
        = mset (swap heap ((i - 1) div 2) i)"
      using "1.IH" [OF _ refl] "1.prems" by simp
    then show ?thesis
      using True "1.prems" bubbleUp.simps [of compare heap i] by (simp add: Let_def)
  next
    case False
    then show ?thesis using bubbleUp.simps [of compare heap i] by (auto simp: Let_def)
  qed
qed

lemma minIndex_of_append:
  "n \<le> length ys \<Longrightarrow> k < n \<Longrightarrow> minIndex_of cmp (ys @ zs) n k = minIndex_of cmp ys n k"
  by (simp add: minIndex_of_def Let_def nth_append)

lemma swap_append:
  "i < length ys \<Longrightarrow> j < length ys \<Longrightarrow> swap (ys @ zs) i j = swap ys i j @ zs"
  by (simp add: swap_def nth_append list_update_append)

lemma heapify_append:
  "n \<le> length ys \<Longrightarrow> k < n \<Longrightarrow> heapify cmp (ys @ zs) k n = heapify cmp ys k n @ zs"
proof (induction cmp ys k n rule: heapify.induct)
  case (1 compare arr i sz)
  let ?s = "minIndex_of compare arr sz i"
  have eq: "minIndex_of compare (arr @ zs) sz i = ?s"
    using "1.prems" by (simp add: minIndex_of_append)
  show ?case
  proof (cases "?s = i")
    case True
    then show ?thesis
      using eq heapify.simps [of compare arr i sz] heapify.simps [of compare "arr @ zs" i sz]
      by (simp add: Let_def)
  next
    case False
    then have s: "?s < sz" using minIndex_of_cases [of compare arr sz i] by auto
    have "heapify compare (swap arr i ?s @ zs) ?s sz = heapify compare (swap arr i ?s) ?s sz @ zs"
      using "1.IH" [OF refl False] "1.prems" s by simp
    moreover have "swap (arr @ zs) i ?s = swap arr i ?s @ zs"
      using "1.prems" s by (simp add: swap_append)
    ultimately show ?thesis
      using False eq heapify.simps [of compare arr i sz] heapify.simps [of compare "arr @ zs" i sz]
      by (simp add: Let_def)
  qed
qed

text \<open>
  The sequence of elements that repeated \<open>remove()\<close> returns, computed on the contents of
  the backing array.
\<close>

function drain_list :: "'a comparator \<Rightarrow> 'a list \<Rightarrow> 'a list" where
  "drain_list cmp xs =
     (if xs = [] then []
      else xs ! 0 # drain_list cmp
             (let ys = butlast (xs[0 := last xs]) in if ys = [] then ys else bubbleDown cmp ys 0))"
  by pat_completeness auto
termination
  by (relation "measure (\<lambda>(cmp, xs). length xs)") (auto simp: Let_def)

declare drain_list.simps [simp del]

lemma swap_last_butlast:
  assumes "1 < length pre"
  shows "swap pre 0 (length pre - 1) = butlast (pre[0 := last pre]) @ [pre ! 0]"
proof (rule nth_equalityI)
  show "length (swap pre 0 (length pre - 1)) = length (butlast (pre[0 := last pre]) @ [pre ! 0])"
    using assms by simp
next
  fix i assume "i < length (swap pre 0 (length pre - 1))"
  then have i: "i < length pre" by simp
  define n where "n = length pre - 1"
  have n: "n < length pre" "0 < n" "length pre = Suc n" using assms by (auto simp: n_def)
  have ne: "pre \<noteq> []" using assms by auto
  have sw: "swap pre 0 n ! i = (if i = 0 then pre ! n else if i = n then pre ! 0 else pre ! i)"
    using nth_swap [of 0 pre n i] i n by simp
  have "(butlast (pre[0 := last pre]) @ [pre ! 0]) ! i =
      (if i = 0 then pre ! n else if i = n then pre ! 0 else pre ! i)"
    using i n ne by (auto simp: nth_append nth_butlast last_conv_nth nth_list_update)
  then show "swap pre 0 (length pre - 1) ! i = (butlast (pre[0 := last pre]) @ [pre ! 0]) ! i"
    using sw by (simp add: n_def)
qed

lemma iterator_loop_drain:
  "pre \<noteq> [] \<Longrightarrow> iterator_loop cmp (pre @ suf) (int (length pre) - 1) = rev (drain_list cmp pre) @ suf"
proof (induction "length pre" arbitrary: pre suf rule: less_induct)
  case less
  show ?case
  proof (cases "length pre = 1")
    case True
    then obtain x where px: "pre = [x]" by (cases pre) auto
    have "drain_list cmp [x] = [x]"
      using drain_list.simps [of cmp "[x]"] drain_list.simps [of cmp "[]"] by (simp add: Let_def)
    then show ?thesis
      using px iterator_loop.simps [of cmp "[x] @ suf" 0] by simp
  next
    case False
    then have len: "1 < length pre" using less.prems by (cases pre) auto
    define ys where "ys = butlast (pre[0 := last pre])"
    have ly: "length ys = length pre - 1" by (simp add: ys_def)
    then have "length ys \<noteq> 0" using len by simp
    then have ys: "ys \<noteq> []" "length ys = length pre - 1" using ly by auto
    define pre' where "pre' = bubbleDown cmp ys 0"
    have lp: "length pre' = length pre - 1" using ys by (simp add: pre'_def)
    then have "length pre' \<noteq> 0" using len by simp
    then have pre': "pre' \<noteq> []" "length pre' < length pre" "length pre' = length pre - 1"
      using lp len by auto
    have "0 < length pre" "length pre - 1 < length pre" using len by auto
    then have "swap (pre @ suf) 0 (length pre - 1) = swap pre 0 (length pre - 1) @ suf"
      by (rule swap_append)
    then have "swap (pre @ suf) 0 (length pre - 1) = ys @ (pre ! 0 # suf)"
      using swap_last_butlast [OF len] by (simp add: ys_def)
    then have "heapify cmp (swap (pre @ suf) 0 (length pre - 1)) 0 (length pre - 1) = pre' @ (pre ! 0 # suf)"
      using ys len heapify_append [of "length ys" ys 0 cmp "pre ! 0 # suf"]
      by (simp add: pre'_def bubbleDown_heapify)
    moreover have "nat (int (length pre) - 1) = length pre - 1" by simp
    ultimately have "iterator_loop cmp (pre @ suf) (int (length pre) - 1)
        = iterator_loop cmp (pre' @ (pre ! 0 # suf)) (int (length pre) - 1 - 1)"
      using len iterator_loop.simps [of cmp "pre @ suf" "int (length pre) - 1"] by simp
    also have "int (length pre) - 1 - 1 = int (length pre') - 1" using pre' len by simp
    also have "iterator_loop cmp (pre' @ (pre ! 0 # suf)) (int (length pre') - 1)
        = rev (drain_list cmp pre') @ (pre ! 0 # suf)"
      using less.hyps [OF pre'(2) pre'(1)] by simp
    also have "\<dots> = rev (drain_list cmp pre) @ suf"
      using ys less.prems drain_list.simps [of cmp pre] by (simp add: Let_def ys_def pre'_def)
    finally show ?thesis .
  qed
qed

lemma iterator_loop_eq_drain:
  "iterator_loop cmp xs (int (length xs) - 1) = rev (drain_list cmp xs)"
proof (cases "xs = []")
  case True
  then show ?thesis
    using iterator_loop.simps [of cmp "[]" "- 1"] drain_list.simps [of cmp "[]"] by simp
next
  case False
  then show ?thesis using iterator_loop_drain [of xs cmp "[]"] by simp
qed

lemma mset_pop: "xs \<noteq> [] \<Longrightarrow> add_mset (xs ! 0) (mset (butlast (xs[0 := last xs]))) = mset xs"
proof (cases xs rule: rev_cases)
  case Nil
  assume "xs \<noteq> []"
  then show ?thesis using Nil by simp
next
  case (snoc ys y)
  show ?thesis
  proof (cases ys)
    case Nil
    then show ?thesis using snoc by simp
  next
    case (Cons z zs)
    then show ?thesis using snoc by simp
  qed
qed

lemma mset_drain_list: "mset (drain_list cmp xs) = mset xs"
proof (induction cmp xs rule: drain_list.induct)
  case (1 cmp xs)
  show ?case
  proof (cases "xs = []")
    case True
    then show ?thesis using drain_list.simps [of cmp xs] by simp
  next
    case False
    define ys where "ys = butlast (xs[0 := last xs])"
    define zs where "zs = (if ys = [] then ys else bubbleDown cmp ys 0)"
    have zs_eq: "(let ys = butlast (xs[0 := last xs]) in if ys = [] then ys else bubbleDown cmp ys 0) = zs"
      unfolding zs_def ys_def Let_def ..
    have "mset zs = mset ys" by (cases "ys = []") (simp_all add: zs_def)
    moreover have "mset (drain_list cmp zs) = mset zs"
      using "1.IH" [OF False, unfolded zs_eq] .
    moreover have "drain_list cmp xs = xs ! 0 # drain_list cmp zs"
      using False drain_list.simps [of cmp xs, unfolded zs_eq] by simp
    ultimately show ?thesis using mset_pop [OF False] by (simp add: ys_def)
  qed
qed

lemma sorted_drain_list:
  "valid_compare cmp \<Longrightarrow> heap_ok cmp xs \<Longrightarrow> sorted_wrt (\<lambda>a b. cmp a b \<le> 0) (drain_list cmp xs)"
proof (induction cmp xs rule: drain_list.induct)
  case (1 cmp xs)
  note vc = \<open>valid_compare cmp\<close>
  show ?case
  proof (cases "xs = []")
    case True
    then show ?thesis using drain_list.simps [of cmp xs] by simp
  next
    case False
    define ys where "ys = butlast (xs[0 := last xs])"
    define zs where "zs = (if ys = [] then ys else bubbleDown cmp ys 0)"
    have zs_eq: "(let ys = butlast (xs[0 := last xs]) in if ys = [] then ys else bubbleDown cmp ys 0) = zs"
      unfolding zs_def ys_def Let_def ..
    have ok: "heap_ok cmp zs"
      using heap_ok_pop [OF vc "1.prems"(2), unfolded zs_eq] .
    have srt: "sorted_wrt (\<lambda>a b. cmp a b \<le> 0) (drain_list cmp zs)"
      using "1.IH" [OF False vc, unfolded zs_eq] ok by blast
    have eq: "drain_list cmp xs = xs ! 0 # drain_list cmp zs"
      using False drain_list.simps [of cmp xs, unfolded zs_eq] by simp
    have "mset zs = mset ys" by (cases "ys = []") (simp_all add: zs_def)
    then have "set (drain_list cmp zs) = set ys"
      using mset_drain_list [of cmp zs] by (metis set_mset_mset)
    moreover have "set ys \<subseteq> set xs"
      using mset_pop [OF False] by (metis ys_def set_mset_mset subset_insertI set_mset_add_mset_insert)
    ultimately have sub: "set (drain_list cmp zs) \<subseteq> set xs" by simp
    have "\<forall>y \<in> set xs. cmp (xs ! 0) y \<le> 0"
    proof
      fix y assume "y \<in> set xs"
      then obtain i where "i < length xs" "y = xs ! i" by (auto simp: in_set_conv_nth)
      then show "cmp (xs ! 0) y \<le> 0"
        using heap_range_root_least [OF vc, of xs "length xs" i] "1.prems"(2)
        by (simp add: heap_ok_range)
    qed
    then show ?thesis using srt sub eq by auto
  qed
qed

lemma isSorted_loop_iff:
  "isSorted_loop cmp arr i = (\<forall>j. i \<le> j \<and> j < length arr \<longrightarrow> \<not> cmp (arr ! (j - 1)) (arr ! j) > 0)"
proof (induction cmp arr i rule: isSorted_loop.induct)
  case (1 compare arr i)
  show ?case
  proof (cases "i < length arr")
    case False
    then show ?thesis using isSorted_loop.simps [of compare arr i] by simp
  next
    case True
    show ?thesis
    proof (cases "compare (arr ! (i - 1)) (arr ! i) > 0")
      case gt: True
      then show ?thesis using True isSorted_loop.simps [of compare arr i] by auto
    next
      case False
      then have "isSorted_loop compare arr i = isSorted_loop compare arr (i + 1)"
        using True isSorted_loop.simps [of compare arr i] by simp
      also have "\<dots> = (\<forall>j. i + 1 \<le> j \<and> j < length arr \<longrightarrow> \<not> compare (arr ! (j - 1)) (arr ! j) > 0)"
        using "1.IH" [OF True False] .
      also have "\<dots> = (\<forall>j. i \<le> j \<and> j < length arr \<longrightarrow> \<not> compare (arr ! (j - 1)) (arr ! j) > 0)"
      proof (intro iffI allI impI)
        fix j assume a: "\<forall>j. i + 1 \<le> j \<and> j < length arr \<longrightarrow> \<not> compare (arr ! (j - 1)) (arr ! j) > 0"
          and j: "i \<le> j \<and> j < length arr"
        show "\<not> compare (arr ! (j - 1)) (arr ! j) > 0"
        proof (cases "j = i")
          case True
          then show ?thesis using False by simp
        next
          case ne: False
          then have "i + 1 \<le> j \<and> j < length arr" using j by simp
          then show ?thesis using a by blast
        qed
      next
        fix j assume a: "\<forall>j. i \<le> j \<and> j < length arr \<longrightarrow> \<not> compare (arr ! (j - 1)) (arr ! j) > 0"
          and j: "i + 1 \<le> j \<and> j < length arr"
        then have "i \<le> j \<and> j < length arr" by simp
        then show "\<not> compare (arr ! (j - 1)) (arr ! j) > 0" using a by blast
      qed
      finally show ?thesis .
    qed
  qed
qed

lemma isSorted_iff:
  "isSorted cmp arr = (\<forall>j. j + 1 < length arr \<longrightarrow> cmp (arr ! j) (arr ! (j + 1)) \<le> 0)"
proof -
  have "isSorted cmp arr = (\<forall>j. 1 \<le> j \<and> j < length arr \<longrightarrow> cmp (arr ! (j - 1)) (arr ! j) \<le> 0)"
    by (simp add: isSorted_def isSorted_loop_iff not_less)
  also have "\<dots> = (\<forall>j. j + 1 < length arr \<longrightarrow> cmp (arr ! j) (arr ! (j + 1)) \<le> 0)"
  proof (intro iffI allI impI)
    fix j assume a: "\<forall>j. 1 \<le> j \<and> j < length arr \<longrightarrow> cmp (arr ! (j - 1)) (arr ! j) \<le> 0"
      and "j + 1 < length arr"
    then show "cmp (arr ! j) (arr ! (j + 1)) \<le> 0" using a [rule_format, of "j + 1"] by simp
  next
    fix j assume a: "\<forall>j. j + 1 < length arr \<longrightarrow> cmp (arr ! j) (arr ! (j + 1)) \<le> 0"
      and "1 \<le> j \<and> j < length arr"
    then show "cmp (arr ! (j - 1)) (arr ! j) \<le> 0" using a [rule_format, of "j - 1"] by simp
  qed
  finally show ?thesis .
qed

lemma sorted_wrt_isSorted: "sorted_wrt (\<lambda>a b. cmp a b \<le> 0) xs \<Longrightarrow> isSorted cmp xs"
  by (simp add: isSorted_iff sorted_wrt_iff_nth_less)

lemma butlast_eq_Nil_iff: "(butlast xs = []) = (length xs \<le> Suc 0)"
  by (cases xs rule: rev_cases) auto

lemma remove_size_less:
  assumes "\<not> isEmpty h m" and "remove h m = ((e, h'), m')"
  shows "size_heap h' m' < size_heap h m"
proof -
  define r where "r = next_ref m"
  define A where "A = (if elements h = r then [] else arrays m (elements h))"
  have lenA: "length A \<le> length (arrays m (elements h))" by (simp add: A_def)
  have ne: "0 < length (arrays m (elements h))" using assms(1) by (simp add: isEmpty_def)
  have "size_heap h' m' = length (butlast (A[0 := A ! (length A - 1)]))"
    using assms unfolding remove_def clone_def new_array_def write_array_def size_heap_def
    by (auto simp: Let_def A_def r_def butlast_eq_Nil_iff split: if_splits)
  then have "size_heap h' m' = length A - 1" by simp
  then show ?thesis using lenA ne unfolding size_heap_def by arith
qed

text \<open>
  Repeated \<open>remove()\<close> until the heap is empty, as the tests of the library write it:
  \<open>while (!current.isEmpty()) { result = current.remove(); if (result.element !== undefined)
  removed.push(result.element); current = result.heap }\<close>. The result is \<open>removed\<close>.
\<close>

function drain :: "'a heap \<Rightarrow> 'a memory \<Rightarrow> 'a list \<times> 'a memory" where
  "drain current m =
     (if isEmpty current m then ([], m)
      else
        (let result = remove current m;
             removed = (case fst (fst result) of Some x \<Rightarrow> [x] | None \<Rightarrow> []);
             (rest, m) = drain (snd (fst result)) (snd result)
         in (removed @ rest, m)))"
  by pat_completeness auto
termination
proof (relation "measure (\<lambda>(current, m). size_heap current m)")
  show "wf (measure (\<lambda>(current, m). size_heap current m))" by simp
next
  fix current :: "'a heap" and m :: "'a memory" and x :: "('a option \<times> 'a heap) \<times> 'a memory"
    and xa :: "'a list"
  assume "\<not> isEmpty current m" and "x = remove current m"
  then show "((snd (fst x), snd x), (current, m)) \<in> measure (\<lambda>(current, m). size_heap current m)"
    using remove_size_less [of current m "fst (fst x)" "snd (fst x)" "snd x"] by simp
qed

declare drain.simps [simp del]

lemma drain_eq_drain_list:
  "elements h < next_ref m \<Longrightarrow> fst (drain h m) = drain_list (compare h) (arrays m (elements h))"
proof (induction h m rule: drain.induct)
  case (1 current m)
  define xs where "xs = arrays m (elements current)"
  show ?case
  proof (cases "xs = []")
    case True
    then show ?thesis
      using drain.simps [of current m] drain_list.simps [of "compare current" xs]
      by (simp add: isEmpty_def xs_def)
  next
    case False
    define zs where "zs = (let ys = butlast (xs[0 := last xs]) in
        if ys = [] then ys else bubbleDown (compare current) ys 0)"
    define h' where "h' = current\<lparr>elements := next_ref m\<rparr>"
    define m' where "m' = m\<lparr>arrays := (arrays m)(next_ref m := zs), next_ref := Suc (next_ref m)\<rparr>"
    have rm: "remove current m = ((Some (xs ! 0), h'), m')"
      using remove_eq [OF "1.prems"] False by (simp add: xs_def zs_def h'_def m'_def)
    have ne: "\<not> isEmpty current m" using False by (simp add: isEmpty_def xs_def)
    have "fst (drain h' m') = drain_list (compare h') (arrays m' (elements h'))"
      using "1.IH" [OF ne refl refl] rm by (simp add: h'_def m'_def)
    then have "fst (drain h' m') = drain_list (compare current) zs"
      by (simp add: h'_def m'_def)
    moreover have "fst (drain current m) = xs ! 0 # fst (drain h' m')"
      using ne rm drain.simps [of current m] by (simp add: Let_def split: prod.splits)
    moreover have "drain_list (compare current) xs = xs ! 0 # drain_list (compare current) zs"
      using False drain_list.simps [of "compare current" xs] by (simp add: zs_def)
    ultimately show ?thesis by (simp add: xs_def)
  qed
qed

text \<open>
  C6. Iterating a heap whose array satisfies the heap ordering, under a comparator that
  follows the comparator contract, yields a sequence that is sorted under the comparator,
  has the same elements as the heap (as a multiset), and is the sequence that repeated
  \<open>remove()\<close> until empty returns; the array of the heap is not written.
  \<open>MinHeap.from([5, 3, 7, 1, 4])\<close> iterates to \<open>[1, 3, 4, 5, 7]\<close>.
\<close>

theorem iterator_sorted_drain:
  "(valid_compare (compare h) \<and> elements h < next_ref m \<and> heap_invariant h m \<longrightarrow>
      (case iterator h m of
         (ys, m') \<Rightarrow>
           isSorted (compare h) ys \<and> mset ys = mset (arrays m (elements h)) \<and>
           ys = fst (drain h m) \<and> arrays m' (elements h) = arrays m (elements h))) \<and>
   (case MinHeap_from (Some 0) \<lparr>arrays = (\<lambda>_. [])(0 := [5, 3, 7, 1, 4]), next_ref = 1\<rparr> of
      (Inr h, m) \<Rightarrow> fst (iterator h m) = [1, 3, 4, 5, 7]
    | (Inl e, m) \<Rightarrow> False)"
proof (intro conjI impI)
  assume a: "valid_compare (compare h) \<and> elements h < next_ref m \<and> heap_invariant h m"
  define xs where "xs = arrays m (elements h)"
  have it: "fst (iterator h m) = drain_list (compare h) xs"
    by (simp add: iterator_eq iterator_loop_eq_drain xs_def)
  have "sorted_wrt (\<lambda>a b. compare h a b \<le> 0) (drain_list (compare h) xs)"
    using a sorted_drain_list [of "compare h" xs] by (simp add: heap_invariant_def xs_def)
  then have "isSorted (compare h) (drain_list (compare h) xs)" by (rule sorted_wrt_isSorted)
  moreover have "mset (drain_list (compare h) xs) = mset xs" by (rule mset_drain_list)
  moreover have "drain_list (compare h) xs = fst (drain h m)"
    using a drain_eq_drain_list [of h m] by (simp add: xs_def)
  moreover have "arrays (snd (iterator h m)) (elements h) = arrays m (elements h)"
    using a by (simp add: iterator_eq)
  ultimately show "case iterator h m of
         (ys, m') \<Rightarrow>
           isSorted (compare h) ys \<and> mset ys = mset (arrays m (elements h)) \<and>
           ys = fst (drain h m) \<and> arrays m' (elements h) = arrays m (elements h)"
    using it by (cases "iterator h m") (simp add: xs_def)
next
  show "case MinHeap_from (Some 0) \<lparr>arrays = (\<lambda>_. [])(0 := [5, 3, 7, 1, 4]), next_ref = 1\<rparr> of
      (Inr h, m) \<Rightarrow> fst (iterator h m) = [1, 3, 4, 5, 7]
    | (Inl e, m) \<Rightarrow> False"
    by code_simp
qed

theorem iterator_sorted_drain_witness:
  "valid_compare (compare example_heap) \<and> elements example_heap < next_ref example_memory \<and>
   heap_invariant example_heap example_memory \<and>
   (case iterator example_heap example_memory of
      (ys, m') \<Rightarrow>
        isSorted (compare example_heap) ys \<and>
        mset ys = mset (arrays example_memory (elements example_heap)) \<and>
        ys = fst (drain example_heap example_memory) \<and>
        arrays m' (elements example_heap) = arrays example_memory (elements example_heap))"
proof -
  have ok: "heap_ok default_compare [1, 3, 2]"
    by (simp add: heap_ok_def default_compare_def atLeast0_lessThan_Suc eval_nat_numeral)
  have h: "valid_compare (compare example_heap) \<and> elements example_heap < next_ref example_memory \<and>
      heap_invariant example_heap example_memory"
    using ok by (simp add: valid_compare_default heap_invariant_def)
  show ?thesis
    using h iterator_sorted_drain [where h = example_heap and m = example_memory]
    by (simp only: simp_thms)
qed

section \<open>The sorting functions\<close>

subsection \<open>heapSort\<close>

lemma valid_compare_negate: "valid_compare cmp \<Longrightarrow> valid_compare (\<lambda>a b. - cmp a b)"
proof -
  assume vc: "valid_compare cmp"
  have f: "\<And>a b. (cmp a b < 0) = (0 < cmp b a)" using vc unfolding valid_compare_def by blast
  have t: "\<And>a b c. cmp a b \<le> 0 \<Longrightarrow> cmp b c \<le> 0 \<Longrightarrow> cmp a c \<le> 0"
    using vc unfolding valid_compare_def by blast
  have g: "\<And>a b. (0 \<le> cmp a b) = (cmp b a \<le> 0)" using f by (simp add: not_less [symmetric])
  show ?thesis
    unfolding valid_compare_def
  proof (intro conjI allI impI)
    fix a b show "(- cmp a b < 0) = (0 < - cmp b a)" using f [of b a] by simp
  next
    fix a b c assume "- cmp a b \<le> 0 \<and> - cmp b c \<le> 0"
    then have "cmp b a \<le> 0" "cmp c b \<le> 0" using g by simp_all
    then have "cmp c a \<le> 0" using t by blast
    then show "- cmp a c \<le> 0" using g [of a c] by simp
  qed
qed

lemma largest_of_minIndex_of: "largest_of cmp xs n i = minIndex_of (\<lambda>a b. - cmp a b) xs n i"
  by (simp add: largest_of_def minIndex_of_def Let_def)

lemma heapSort_heapify_heapify:
  "heapSort_heapify cmp xs n i = heapify (\<lambda>a b. - cmp a b) xs i n"
proof (induction cmp xs n i rule: heapSort_heapify.induct)
  case (1 compare result n i)
  let ?s = "largest_of compare result n i"
  show ?case
  proof (cases "?s = i")
    case True
    then show ?thesis
      using heapSort_heapify.simps [of compare result n i]
        heapify.simps [of "\<lambda>a b. - compare a b" result i n]
      by (simp add: Let_def largest_of_minIndex_of)
  next
    case False
    then have "heapSort_heapify compare (swap result i ?s) n ?s
        = heapify (\<lambda>a b. - compare a b) (swap result i ?s) ?s n"
      using "1.IH" [OF refl] by simp
    then show ?thesis
      using False heapSort_heapify.simps [of compare result n i]
        heapify.simps [of "\<lambda>a b. - compare a b" result i n]
      by (simp add: Let_def largest_of_minIndex_of)
  qed
qed

lemma heapSort_build_from_loop:
  "heapSort_build cmp xs i = from_loop (\<lambda>a b. - cmp a b) xs i"
proof (induction cmp xs i rule: heapSort_build.induct)
  case (1 compare result i)
  show ?case
  proof (cases "i \<ge> 0")
    case True
    then show ?thesis
      using "1.IH" [OF True] heapSort_build.simps [of compare result i]
        from_loop.simps [of "\<lambda>a b. - compare a b" result i]
      by (simp add: heapSort_heapify_heapify bubbleDown_heapify)
  next
    case False
    then show ?thesis
      using heapSort_build.simps [of compare result i]
        from_loop.simps [of "\<lambda>a b. - compare a b" result i] by simp
  qed
qed

lemma heapSort_extract_iterator_loop:
  "heapSort_extract cmp xs i = iterator_loop (\<lambda>a b. - cmp a b) xs i"
proof (induction cmp xs i rule: heapSort_extract.induct)
  case (1 compare result i)
  show ?case
  proof (cases "i > 0")
    case True
    then show ?thesis
      using "1.IH" [OF True] heapSort_extract.simps [of compare result i]
        iterator_loop.simps [of "\<lambda>a b. - compare a b" result i]
      by (simp add: heapSort_heapify_heapify)
  next
    case False
    then show ?thesis
      using heapSort_extract.simps [of compare result i]
        iterator_loop.simps [of "\<lambda>a b. - compare a b" result i] by simp
  qed
qed

lemma mset_from_loop [simp]: "i < int (length xs) \<Longrightarrow> mset (from_loop cmp xs i) = mset xs"
proof (induction cmp xs i rule: from_loop.induct)
  case (1 compare heap i)
  show ?case
  proof (cases "i \<ge> 0")
    case True
    then have "mset (from_loop compare (bubbleDown compare heap (nat i)) (i - 1))
        = mset (bubbleDown compare heap (nat i))"
      using "1.IH" [OF True] "1.prems" by simp
    then show ?thesis
      using True "1.prems" from_loop.simps [of compare heap i] by simp
  next
    case False
    then show ?thesis using from_loop.simps [of compare heap i] by simp
  qed
qed

lemma heapSort_list_correct:
  assumes vc: "valid_compare cmp"
    and ys_def: "ys = heapSort_extract cmp (heapSort_build cmp xs (int (length xs div 2) - 1)) (int (length xs) - 1)"
  shows "sorted_wrt (\<lambda>a b. cmp a b \<le> 0) ys \<and> mset ys = mset xs"
proof -
  let ?neg = "\<lambda>a b. - cmp a b"
  define hp where "hp = from_loop ?neg xs (int (length xs div 2) - 1)"
  have vn: "valid_compare ?neg" using vc by (rule valid_compare_negate)
  have ok: "heap_ok ?neg hp" unfolding hp_def using vn by (rule from_loop_heap_ok)
  have len: "length hp = length xs" by (simp add: hp_def)
  have "int (length xs div 2) - 1 < int (length xs)" by linarith
  then have ms: "mset hp = mset xs" by (simp add: hp_def)
  have ys: "ys = rev (drain_list ?neg hp)"
    using iterator_loop_eq_drain [of ?neg hp] len
    by (simp add: ys_def heapSort_build_from_loop heapSort_extract_iterator_loop hp_def)
  have "sorted_wrt (\<lambda>a b. - cmp a b \<le> 0) (drain_list ?neg hp)"
    using sorted_drain_list [OF vn ok] .
  then have "sorted_wrt (\<lambda>a b. cmp b a \<le> 0) (drain_list ?neg hp)"
    using valid_compare_ge [OF vc] by (simp add: sorted_wrt_iff_nth_less)
  then have "sorted_wrt (\<lambda>a b. cmp a b \<le> 0) ys"
    by (simp add: ys sorted_wrt_rev)
  moreover have "mset ys = mset xs" using ms by (simp add: ys mset_drain_list)
  ultimately show ?thesis by simp
qed

subsection \<open>mergeSort\<close>

lemma merge_loop_correct:
  assumes vc: "valid_compare cmp"
  shows "sorted_wrt (\<lambda>a b. cmp a b \<le> 0) res \<Longrightarrow>
    sorted_wrt (\<lambda>a b. cmp a b \<le> 0) (drop i l) \<Longrightarrow>
    sorted_wrt (\<lambda>a b. cmp a b \<le> 0) (drop j r) \<Longrightarrow>
    (\<forall>x \<in> set res. \<forall>y \<in> set (drop i l) \<union> set (drop j r). cmp x y \<le> 0) \<Longrightarrow>
    sorted_wrt (\<lambda>a b. cmp a b \<le> 0) (merge_loop cmp l r res i j) \<and>
    mset (merge_loop cmp l r res i j) = mset res + mset (drop i l) + mset (drop j r)"
  using vc
proof (induction cmp l r res i j rule: merge_loop.induct)
  case (1 compare left right result i j)
  note vc = \<open>valid_compare compare\<close>
  let ?le = "\<lambda>a b. compare a b \<le> 0"
  show ?case
  proof (cases "i < length left \<and> j < length right")
    case False
    then have e: "drop i left = [] \<or> drop j right = []" by auto
    have "sorted_wrt ?le (result @ drop i left @ drop j right)"
      using e "1.prems" by (auto simp: sorted_wrt_append)
    moreover have "merge_loop compare left right result i j = result @ drop i left @ drop j right"
      using False by (subst merge_loop.simps) (simp only: if_False)
    ultimately show ?thesis by simp
  next
    case True
    have dl: "drop i left = left ! i # drop (Suc i) left" using True by (simp add: Cons_nth_drop_Suc)
    have dr: "drop j right = right ! j # drop (Suc j) right" using True by (simp add: Cons_nth_drop_Suc)
    have sl: "sorted_wrt ?le (drop (Suc i) left)" "\<forall>y \<in> set (drop (Suc i) left). ?le (left ! i) y"
      using "1.prems"(2) dl by auto
    have sr: "sorted_wrt ?le (drop (Suc j) right)" "\<forall>y \<in> set (drop (Suc j) right). ?le (right ! j) y"
      using "1.prems"(3) dr by auto
    have rl: "\<forall>x \<in> set result. ?le x (left ! i)" "\<forall>x \<in> set result. \<forall>y \<in> set (drop (Suc i) left). ?le x y"
      using "1.prems"(4) dl by auto
    have rr: "\<forall>x \<in> set result. ?le x (right ! j)" "\<forall>x \<in> set result. \<forall>y \<in> set (drop (Suc j) right). ?le x y"
      using "1.prems"(4) dr by auto
    show ?thesis
    proof (cases "compare (left ! i) (right ! j) \<le> 0")
      case le: True
      have a: "sorted_wrt ?le (result @ [left ! i])"
        using "1.prems"(1) rl by (simp add: sorted_wrt_append)
      have "\<forall>y \<in> set (drop j right). ?le (left ! i) y"
      proof
        fix y assume "y \<in> set (drop j right)"
        then have "y = right ! j \<or> y \<in> set (drop (Suc j) right)" using dr by auto
        then have "?le (right ! j) y" using sr valid_compare_refl [OF vc, of "right ! j"] by auto
        then show "?le (left ! i) y" using le valid_compare_trans [OF vc] by blast
      qed
      then have b: "\<forall>x \<in> set (result @ [left ! i]). \<forall>y \<in> set (drop (i + 1) left) \<union> set (drop j right). ?le x y"
        using sl rl "1.prems"(4) by auto
      have "sorted_wrt ?le (merge_loop compare left right (result @ [left ! i]) (i + 1) j) \<and>
          mset (merge_loop compare left right (result @ [left ! i]) (i + 1) j)
            = mset (result @ [left ! i]) + mset (drop (i + 1) left) + mset (drop j right)"
        using "1.IH"(1) [OF True le a _ "1.prems"(3) b vc] sl by simp
      then show ?thesis
        using True le merge_loop.simps [of compare left right result i j] dl by simp
    next
      case nle: False
      then have le: "?le (right ! j) (left ! i)"
        using valid_compare_total [OF vc, of "left ! i" "right ! j"] by simp
      have a: "sorted_wrt ?le (result @ [right ! j])"
        using "1.prems"(1) rr by (simp add: sorted_wrt_append)
      have "\<forall>y \<in> set (drop i left). ?le (right ! j) y"
      proof
        fix y assume "y \<in> set (drop i left)"
        then have "y = left ! i \<or> y \<in> set (drop (Suc i) left)" using dl by auto
        then have "?le (left ! i) y" using sl valid_compare_refl [OF vc, of "left ! i"] by auto
        then show "?le (right ! j) y" using le valid_compare_trans [OF vc] by blast
      qed
      then have b: "\<forall>x \<in> set (result @ [right ! j]). \<forall>y \<in> set (drop i left) \<union> set (drop (j + 1) right). ?le x y"
        using sr rr "1.prems"(4) by auto
      have "sorted_wrt ?le (merge_loop compare left right (result @ [right ! j]) i (j + 1)) \<and>
          mset (merge_loop compare left right (result @ [right ! j]) i (j + 1))
            = mset (result @ [right ! j]) + mset (drop i left) + mset (drop (j + 1) right)"
        using "1.IH"(2) [OF True nle a "1.prems"(2) _ b vc] sr by simp
      then show ?thesis
        using True nle merge_loop.simps [of compare left right result i j] dr by simp
    qed
  qed
qed

lemma merge_correct:
  assumes "valid_compare cmp" and "sorted_wrt (\<lambda>a b. cmp a b \<le> 0) l"
    and "sorted_wrt (\<lambda>a b. cmp a b \<le> 0) r"
  shows "sorted_wrt (\<lambda>a b. cmp a b \<le> 0) (merge cmp l r) \<and> mset (merge cmp l r) = mset l + mset r"
  using merge_loop_correct [OF assms(1), of "[]" 0 l 0 r] assms by (simp add: merge_def)

lemma mergeSort_list_correct:
  "valid_compare cmp \<Longrightarrow>
   sorted_wrt (\<lambda>a b. cmp a b \<le> 0) (mergeSort_list cmp xs) \<and> mset (mergeSort_list cmp xs) = mset xs"
proof (induction cmp xs rule: mergeSort_list.induct)
  case (1 compare arr)
  note vc = \<open>valid_compare compare\<close>
  show ?case
  proof (cases "length arr \<le> 1")
    case True
    then have "sorted_wrt (\<lambda>a b. compare a b \<le> 0) arr"
      by (cases arr) (auto simp: le_Suc_eq)
    then show ?thesis using True mergeSort_list.simps [of compare arr] by simp
  next
    case False
    define left where "left = take (length arr div 2) arr"
    define right where "right = drop (length arr div 2) arr"
    have l: "sorted_wrt (\<lambda>a b. compare a b \<le> 0) (mergeSort_list compare left) \<and>
        mset (mergeSort_list compare left) = mset left"
      using "1.IH"(1) [OF False refl refl refl vc] by (simp add: left_def)
    have r: "sorted_wrt (\<lambda>a b. compare a b \<le> 0) (mergeSort_list compare right) \<and>
        mset (mergeSort_list compare right) = mset right"
      using "1.IH"(2) [OF False refl refl refl vc] by (simp add: right_def)
    have "mset left + mset right = mset arr"
      unfolding left_def right_def by (metis append_take_drop_id mset_append)
    moreover have "mergeSort_list compare arr
        = merge compare (mergeSort_list compare left) (mergeSort_list compare right)"
      using False mergeSort_list.simps [of compare arr] by (simp add: Let_def left_def right_def)
    ultimately show ?thesis
      using merge_correct [OF vc, of "mergeSort_list compare left" "mergeSort_list compare right"] l r
      by simp
  qed
qed

subsection \<open>insertionSort\<close>

definition prefix_sorted :: "'a comparator \<Rightarrow> 'a list \<Rightarrow> nat \<Rightarrow> bool" where
  "prefix_sorted cmp xs i \<longleftrightarrow>
     (\<forall>p q. p < q \<and> q < i \<and> q < length xs \<longrightarrow> cmp (xs ! p) (xs ! q) \<le> 0)"

definition shift_inv :: "'a comparator \<Rightarrow> 'a list \<Rightarrow> 'a \<Rightarrow> nat \<Rightarrow> nat \<Rightarrow> bool" where
  "shift_inv cmp r key i k \<longleftrightarrow>
     k \<le> i \<and> i < length r \<and>
     (\<forall>p q. p < q \<and> q < k \<longrightarrow> cmp (r ! p) (r ! q) \<le> 0) \<and>
     (\<forall>q. k < q \<and> q \<le> i \<longrightarrow> cmp (r ! q) key > 0) \<and>
     (\<forall>p q. k < p \<and> p < q \<and> q \<le> i \<longrightarrow> cmp (r ! p) (r ! q) \<le> 0) \<and>
     (\<forall>p q. p < k \<and> k < q \<and> q \<le> i \<longrightarrow> cmp (r ! p) (r ! q) \<le> 0)"

lemma mset_shift_step:
  assumes "Suc n < length r"
  shows "mset (r[Suc n := r ! n, n := key]) = mset (r[Suc n := key])"
proof -
  define xs where "xs = r[Suc n := key]"
  have "mset (xs[n := xs ! Suc n, Suc n := xs ! n]) = mset xs"
    using assms by (intro mset_swap) (simp_all add: xs_def)
  moreover have "xs[n := xs ! Suc n, Suc n := xs ! n] = r[Suc n := r ! n, n := key]"
    using assms by (simp add: xs_def list_update_swap [of n "Suc n"])
  ultimately show ?thesis by (simp add: xs_def)
qed

lemma shift_inv_step:
  assumes inv: "shift_inv cmp r key i (Suc n)" and gt: "cmp (r ! n) key > 0"
  shows "shift_inv cmp (r[Suc n := r ! n]) key i n"
proof -
  have b: "Suc n \<le> i" "i < length r"
    and i1: "\<And>p q. p < q \<Longrightarrow> q < Suc n \<Longrightarrow> cmp (r ! p) (r ! q) \<le> 0"
    and i2: "\<And>q. Suc n < q \<Longrightarrow> q \<le> i \<Longrightarrow> cmp (r ! q) key > 0"
    and i3: "\<And>p q. Suc n < p \<Longrightarrow> p < q \<Longrightarrow> q \<le> i \<Longrightarrow> cmp (r ! p) (r ! q) \<le> 0"
    and i4: "\<And>p q. p < Suc n \<Longrightarrow> Suc n < q \<Longrightarrow> q \<le> i \<Longrightarrow> cmp (r ! p) (r ! q) \<le> 0"
    using inv unfolding shift_inv_def by blast+
  let ?r = "r[Suc n := r ! n]"
  have nth: "\<And>p. p < length r \<Longrightarrow> ?r ! p = (if p = Suc n then r ! n else r ! p)"
    by (simp add: nth_list_update)
  show ?thesis
    unfolding shift_inv_def
  proof (intro conjI allI impI)
    show "n \<le> i" using b by simp
    show "i < length ?r" using b by simp
  next
    fix p q assume "p < q \<and> q < n"
    then show "cmp (?r ! p) (?r ! q) \<le> 0" using i1 [of p q] b nth by simp
  next
    fix q assume a: "n < q \<and> q \<le> i"
    show "0 < cmp (?r ! q) key"
    proof (cases "q = Suc n")
      case True
      then show ?thesis using gt b nth by simp
    next
      case False
      then show ?thesis using a i2 [of q] b nth by simp
    qed
  next
    fix p q assume a: "n < p \<and> p < q \<and> q \<le> i"
    show "cmp (?r ! p) (?r ! q) \<le> 0"
    proof (cases "p = Suc n")
      case True
      then show ?thesis using a i4 [of n q] b nth by simp
    next
      case False
      then show ?thesis using a i3 [of p q] b nth by simp
    qed
  next
    fix p q assume a: "p < n \<and> n < q \<and> q \<le> i"
    show "cmp (?r ! p) (?r ! q) \<le> 0"
    proof (cases "q = Suc n")
      case True
      then show ?thesis using a i1 [of p n] b nth by simp
    next
      case False
      then show ?thesis using a i4 [of p q] b nth by simp
    qed
  qed
qed

lemma insertion_shift_inv:
  "shift_inv cmp r key i k \<Longrightarrow> insertion_shift cmp r key (int k - 1) = (r', j') \<Longrightarrow>
   \<exists>k'. j' = int k' - 1 \<and> shift_inv cmp r' key i k' \<and>
        (k' = 0 \<or> cmp (r' ! (k' - 1)) key \<le> 0) \<and>
        mset (r'[k' := key]) = mset (r[k := key])"
proof (induction k arbitrary: r)
  case 0
  then have "r' = r" "j' = - 1"
    using insertion_shift.simps [of cmp r key "- 1"] by simp_all
  then show ?case using 0 by (intro exI [of _ 0]) simp
next
  case (Suc n)
  show ?case
  proof (cases "cmp (r ! n) key > 0")
    case True
    have b: "Suc n < length r" using Suc.prems(1) unfolding shift_inv_def by simp
    have "insertion_shift cmp (r[Suc n := r ! n]) key (int n - 1) = (r', j')"
      using True Suc.prems(2) insertion_shift.simps [of cmp r key "int (Suc n) - 1"]
      by (simp add: nat_add_distrib)
    then obtain k' where k': "j' = int k' - 1" "shift_inv cmp r' key i k'"
        "k' = 0 \<or> cmp (r' ! (k' - 1)) key \<le> 0"
        "mset (r'[k' := key]) = mset (r[Suc n := r ! n, n := key])"
      using Suc.IH [OF shift_inv_step [OF Suc.prems(1) True]] by blast
    then show ?thesis using mset_shift_step [OF b] by (intro exI [of _ k']) simp
  next
    case False
    then have "r' = r" "j' = int n"
      using Suc.prems(2) insertion_shift.simps [of cmp r key "int (Suc n) - 1"] by simp_all
    then show ?thesis using False Suc.prems(1) by (intro exI [of _ "Suc n"]) simp
  qed
qed

lemma shift_inv_place:
  assumes vc: "valid_compare cmp" and inv: "shift_inv cmp r key i k"
    and stop: "k = 0 \<or> cmp (r ! (k - 1)) key \<le> 0"
  shows "prefix_sorted cmp (r[k := key]) (i + 1)"
proof -
  have b: "k \<le> i" "i < length r"
    and i1: "\<And>p q. p < q \<Longrightarrow> q < k \<Longrightarrow> cmp (r ! p) (r ! q) \<le> 0"
    and i2: "\<And>q. k < q \<Longrightarrow> q \<le> i \<Longrightarrow> cmp (r ! q) key > 0"
    and i3: "\<And>p q. k < p \<Longrightarrow> p < q \<Longrightarrow> q \<le> i \<Longrightarrow> cmp (r ! p) (r ! q) \<le> 0"
    and i4: "\<And>p q. p < k \<Longrightarrow> k < q \<Longrightarrow> q \<le> i \<Longrightarrow> cmp (r ! p) (r ! q) \<le> 0"
    using inv unfolding shift_inv_def by blast+
  let ?r = "r[k := key]"
  have nth: "\<And>p. p < length r \<Longrightarrow> ?r ! p = (if p = k then key else r ! p)"
    by (simp add: nth_list_update)
  show ?thesis
    unfolding prefix_sorted_def
  proof (intro allI impI)
    fix p q assume "p < q \<and> q < i + 1 \<and> q < length ?r"
    then have a: "p < q" "q \<le> i" "q < length r" "p < length r" by auto
    consider (below) "q < k" | (at) "q = k" | (above) "k < q" by linarith
    then show "cmp (?r ! p) (?r ! q) \<le> 0"
    proof cases
      case below
      then show ?thesis using a i1 [of p q] nth by simp
    next
      case at
      then have k: "0 < k" "cmp (r ! (k - 1)) key \<le> 0" using a stop by auto
      have "cmp (r ! p) (r ! (k - 1)) \<le> 0"
      proof (cases "p = k - 1")
        case True
        then show ?thesis using valid_compare_refl [OF vc, of "r ! p"] by simp
      next
        case False
        then show ?thesis using a at k i1 [of p "k - 1"] by simp
      qed
      then have "cmp (r ! p) key \<le> 0"
        using k valid_compare_trans [OF vc, of "r ! p" "r ! (k - 1)" key] by simp
      then show ?thesis using a at nth by simp
    next
      case above
      consider (pb) "p < k" | (pa) "p = k" | (pc) "k < p" by linarith
      then show ?thesis
      proof cases
        case pb
        then show ?thesis using a above i4 [of p q] nth by simp
      next
        case pa
        have "cmp key (r ! q) < 0"
          using i2 [of q] above a valid_compare_flip [OF vc, of key "r ! q"] by simp
        then show ?thesis using a above pa nth by simp
      next
        case pc
        then show ?thesis using a above i3 [of p q] nth by simp
      qed
    qed
  qed
qed

lemma insertion_loop_correct:
  "valid_compare cmp \<Longrightarrow> prefix_sorted cmp r i \<Longrightarrow>
   sorted_wrt (\<lambda>a b. cmp a b \<le> 0) (insertion_loop cmp r i) \<and> mset (insertion_loop cmp r i) = mset r"
proof (induction cmp r i rule: insertion_loop.induct)
  case (1 compare result i)
  note vc = \<open>valid_compare compare\<close>
  show ?case
  proof (cases "i < length result")
    case False
    then have "\<forall>p q. p < q \<and> q < length result \<longrightarrow> compare (result ! p) (result ! q) \<le> 0"
      using "1.prems"(2) unfolding prefix_sorted_def by auto
    then have "sorted_wrt (\<lambda>a b. compare a b \<le> 0) result"
      by (simp add: sorted_wrt_iff_nth_less)
    then show ?thesis using False insertion_loop.simps [of compare result i] by simp
  next
    case True
    define key where "key = result ! i"
    obtain r' j' where sh: "insertion_shift compare result key (int i - 1) = (r', j')"
      by (cases "insertion_shift compare result key (int i - 1)") auto
    have "shift_inv compare result key i i"
      using True "1.prems"(2) unfolding shift_inv_def prefix_sorted_def by auto
    then obtain k' where k': "j' = int k' - 1" "shift_inv compare r' key i k'"
        "k' = 0 \<or> compare (r' ! (k' - 1)) key \<le> 0"
        "mset (r'[k' := key]) = mset (result[i := key])"
      using insertion_shift_inv [OF _ sh] by blast
    define r'' where "r'' = r'[nat (j' + 1) := key]"
    have r'': "r'' = r'[k' := key]" using k'(1) by (simp add: r''_def)
    have ps: "prefix_sorted compare r'' (i + 1)"
      using shift_inv_place [OF vc k'(2) k'(3)] by (simp add: r'')
    have ms: "mset r'' = mset result" using k'(4) by (simp add: r'' key_def)
    have "sorted_wrt (\<lambda>a b. compare a b \<le> 0) (insertion_loop compare r'' (i + 1)) \<and>
        mset (insertion_loop compare r'' (i + 1)) = mset r''"
      using "1.IH" [OF True key_def [symmetric, THEN sym] sh [symmetric] refl r''_def [THEN sym, symmetric] vc ps] .
    moreover have "insertion_loop compare result i = insertion_loop compare r'' (i + 1)"
      using True sh insertion_loop.simps [of compare result i]
      by (simp add: Let_def key_def [symmetric] r''_def)
    ultimately show ?thesis using ms by simp
  qed
qed

subsection \<open>quickSort\<close>

lemma scan_up_spec:
  "- 1 \<le> i \<Longrightarrow> i < int s \<Longrightarrow> s < length xs \<Longrightarrow> \<not> cmp (xs ! s) v < 0 \<Longrightarrow>
   \<exists>i'. scan_up cmp xs v i = Some (int i') \<and> i < int i' \<and> i' \<le> s \<and> \<not> cmp (xs ! i') v < 0 \<and>
        (\<forall>k. i < int k \<and> k < i' \<longrightarrow> cmp (xs ! k) v < 0)"
proof (induction cmp xs v i rule: scan_up.induct)
  case (1 compare result pivot i)
  define i1 where "i1 = nat (i + 1)"
  have i1: "int i1 = i + 1" "i1 \<le> s" "i1 < length result" using "1.prems" by (auto simp: i1_def)
  show ?case
  proof (cases "compare (result ! i1) pivot < 0")
    case True
    then have "i1 \<noteq> s" using "1.prems"(4) by auto
    then have lt: "i + 1 < int s" using i1 by linarith
    have "\<exists>i'. scan_up compare result pivot (i + 1) = Some (int i') \<and> i + 1 < int i' \<and> i' \<le> s \<and>
        \<not> compare (result ! i') pivot < 0 \<and>
        (\<forall>k. i + 1 < int k \<and> k < i' \<longrightarrow> compare (result ! k) pivot < 0)"
      using "1.IH" [OF refl _ _ _ lt "1.prems"(3,4)] True i1 "1.prems"(1) by (simp add: i1_def)
    then obtain i' where i': "scan_up compare result pivot (i + 1) = Some (int i')" "i + 1 < int i'"
        "i' \<le> s" "\<not> compare (result ! i') pivot < 0"
        "\<forall>k. i + 1 < int k \<and> k < i' \<longrightarrow> compare (result ! k) pivot < 0" by blast
    have "\<forall>k. i < int k \<and> k < i' \<longrightarrow> compare (result ! k) pivot < 0"
    proof (intro allI impI)
      fix k assume a: "i < int k \<and> k < i'"
      show "compare (result ! k) pivot < 0"
      proof (cases "k = i1")
        case True
        then show ?thesis using \<open>compare (result ! i1) pivot < 0\<close> by simp
      next
        case False
        then have "i + 1 < int k" using a i1 by linarith
        then show ?thesis using a i'(5) by blast
      qed
    qed
    moreover have "scan_up compare result pivot i = Some (int i')"
      using True i1 i'(1) "1.prems"(1) scan_up.simps [of compare result pivot i]
      by (simp add: Let_def i1_def)
    ultimately show ?thesis using i' by (intro exI [of _ i']) simp
  next
    case False
    have "scan_up compare result pivot i = Some (int i1)"
      using False i1 "1.prems"(1) scan_up.simps [of compare result pivot i]
      by (simp add: Let_def i1_def)
    moreover have "\<forall>k. i < int k \<and> k < i1 \<longrightarrow> compare (result ! k) pivot < 0"
      using i1 by auto
    ultimately show ?thesis using False i1 by (intro exI [of _ i1]) simp
  qed
qed

lemma scan_down_spec:
  "j \<le> int (length xs) \<Longrightarrow> int s < j \<Longrightarrow> \<not> cmp (xs ! s) v > 0 \<Longrightarrow>
   \<exists>j'. scan_down cmp xs v j = Some (int j') \<and> int j' < j \<and> s \<le> j' \<and> \<not> cmp (xs ! j') v > 0 \<and>
        (\<forall>k. j' < k \<and> int k < j \<longrightarrow> cmp (xs ! k) v > 0)"
proof (induction cmp xs v j rule: scan_down.induct)
  case (1 compare result pivot j)
  define j1 where "j1 = nat (j - 1)"
  have j1: "int j1 = j - 1" "s \<le> j1" "j1 < length result" using "1.prems" by (auto simp: j1_def)
  have jp: "0 < j" "j - 1 < int (length result)" using "1.prems" by auto
  show ?case
  proof (cases "compare (result ! j1) pivot > 0")
    case True
    then have "j1 \<noteq> s" using "1.prems"(3) by auto
    then have lt: "int s < j - 1" using j1 by linarith
    have "\<exists>j'. scan_down compare result pivot (j - 1) = Some (int j') \<and> int j' < j - 1 \<and> s \<le> j' \<and>
        \<not> compare (result ! j') pivot > 0 \<and>
        (\<forall>k. j' < k \<and> int k < j - 1 \<longrightarrow> compare (result ! k) pivot > 0)"
      using "1.IH" [OF refl _ _ _ lt "1.prems"(3)] True j1 jp "1.prems"(1) by (simp add: j1_def)
    then obtain j' where j': "scan_down compare result pivot (j - 1) = Some (int j')" "int j' < j - 1"
        "s \<le> j'" "\<not> compare (result ! j') pivot > 0"
        "\<forall>k. j' < k \<and> int k < j - 1 \<longrightarrow> compare (result ! k) pivot > 0" by blast
    have "\<forall>k. j' < k \<and> int k < j \<longrightarrow> compare (result ! k) pivot > 0"
    proof (intro allI impI)
      fix k assume a: "j' < k \<and> int k < j"
      show "compare (result ! k) pivot > 0"
      proof (cases "k = j1")
        case True
        then show ?thesis using \<open>compare (result ! j1) pivot > 0\<close> by simp
      next
        case False
        then have "int k < j - 1" using a j1 by linarith
        then show ?thesis using a j'(5) by blast
      qed
    qed
    moreover have "scan_down compare result pivot j = Some (int j')"
      using True j1 jp j'(1) scan_down.simps [of compare result pivot j]
      by (simp add: Let_def j1_def)
    ultimately show ?thesis using j' by (intro exI [of _ j']) simp
  next
    case False
    have "scan_down compare result pivot j = Some (int j1)"
      using False j1 jp scan_down.simps [of compare result pivot j]
      by (simp add: Let_def j1_def)
    moreover have "\<forall>k. j1 < k \<and> int k < j \<longrightarrow> compare (result ! k) pivot > 0"
      using j1 by auto
    ultimately show ?thesis using False j1 by (intro exI [of _ j1]) simp
  qed
qed

definition part_inv :: "'a comparator \<Rightarrow> 'a list \<Rightarrow> 'a \<Rightarrow> nat \<Rightarrow> nat \<Rightarrow> int \<Rightarrow> int \<Rightarrow> bool" where
  "part_inv cmp xs v l h i j \<longleftrightarrow>
     int l - 1 \<le> i \<and> i < j \<and> j \<le> int h + 1 \<and> h < length xs \<and>
     (\<forall>k. l \<le> k \<and> int k \<le> i \<longrightarrow> cmp (xs ! k) v \<le> 0) \<and>
     (\<forall>k. j \<le> int k \<and> k \<le> h \<longrightarrow> 0 \<le> cmp (xs ! k) v) \<and>
     (\<exists>s. i < int s \<and> s \<le> h \<and> \<not> cmp (xs ! s) v < 0) \<and>
     (\<exists>s. l \<le> s \<and> int s < j \<and> \<not> cmp (xs ! s) v > 0) \<and>
     (j \<le> int h \<or> (\<exists>s. i < int s \<and> s < h \<and> \<not> cmp (xs ! s) v < 0))"

definition partitioned ::
  "'a comparator \<Rightarrow> 'a list \<Rightarrow> 'a list \<Rightarrow> 'a \<Rightarrow> nat \<Rightarrow> nat \<Rightarrow> nat \<Rightarrow> bool" where
  "partitioned cmp xs ys v l h p \<longleftrightarrow>
     l \<le> p \<and> p < h \<and> length ys = length xs \<and> mset ys = mset xs \<and>
     (\<forall>k. k < length xs \<and> (k < l \<or> h < k) \<longrightarrow> ys ! k = xs ! k) \<and>
     (\<forall>k. l \<le> k \<and> k \<le> p \<longrightarrow> cmp (ys ! k) v \<le> 0) \<and>
     (\<forall>k. p < k \<and> k \<le> h \<longrightarrow> 0 \<le> cmp (ys ! k) v)"

lemma partition_loop_spec:
  "part_inv cmp xs v l h i j \<Longrightarrow>
   \<exists>p ys. partition_loop cmp xs v i j = Some (int p, ys) \<and> partitioned cmp xs ys v l h p"
proof (induction cmp xs v i j rule: partition_loop.induct)
  case (1 compare result pivot i j)
  have b: "int l - 1 \<le> i" "i < j" "j \<le> int h + 1" "h < length result"
    and A: "\<And>k. l \<le> k \<Longrightarrow> int k \<le> i \<Longrightarrow> compare (result ! k) pivot \<le> 0"
    and B: "\<And>k. j \<le> int k \<Longrightarrow> k \<le> h \<Longrightarrow> 0 \<le> compare (result ! k) pivot"
    and S1: "\<exists>s. i < int s \<and> s \<le> h \<and> \<not> compare (result ! s) pivot < 0"
    and S2: "\<exists>s. l \<le> s \<and> int s < j \<and> \<not> compare (result ! s) pivot > 0"
    and F: "j \<le> int h \<or> (\<exists>s. i < int s \<and> s < h \<and> \<not> compare (result ! s) pivot < 0)"
    using "1.prems" unfolding part_inv_def by blast+
  obtain s1 where s1: "i < int s1" "s1 \<le> h" "\<not> compare (result ! s1) pivot < 0" "j \<le> int h \<or> s1 < h"
  proof (cases "j \<le> int h")
    case True
    then show ?thesis using S1 that by blast
  next
    case False
    then obtain s where "i < int s \<and> s < h \<and> \<not> compare (result ! s) pivot < 0" using F by blast
    then show ?thesis using that [of s] by simp
  qed
  obtain s2 where s2: "l \<le> s2" "int s2 < j" "\<not> compare (result ! s2) pivot > 0"
    using S2 by blast
  have "- 1 \<le> i" using b by linarith
  moreover have "s1 < length result" using s1 b by linarith
  ultimately obtain i' where i': "scan_up compare result pivot i = Some (int i')" "i < int i'" "i' \<le> s1"
      "\<not> compare (result ! i') pivot < 0" "\<And>k. i < int k \<Longrightarrow> k < i' \<Longrightarrow> compare (result ! k) pivot < 0"
    using scan_up_spec [of i s1 result compare pivot] s1 by blast
  have "j \<le> int (length result)" using b by linarith
  then obtain j' where j': "scan_down compare result pivot j = Some (int j')" "int j' < j" "s2 \<le> j'"
      "\<not> compare (result ! j') pivot > 0" "\<And>k. j' < k \<Longrightarrow> int k < j \<Longrightarrow> compare (result ! k) pivot > 0"
    using scan_down_spec [of j result s2 compare pivot] s2 by blast
  have r: "l \<le> i'" "i' \<le> h" "l \<le> j'" "j' \<le> h" "i' < length result" "j' < length result"
    using b i' j' s1 s2 by linarith+
  show ?case
  proof (cases "i' \<ge> j'")
    case True
    have "partitioned compare result result pivot l h j'"
      unfolding partitioned_def
    proof (intro conjI allI impI)
      show "l \<le> j'" using r by simp
      show "j' < h" using s1(4) True i' j' by linarith
    next
      fix k assume a: "l \<le> k \<and> k \<le> j'"
      consider (old) "int k \<le> i" | (scanned) "i < int k" "k < i'" | (last) "k = i'" "k = j'"
        using a True by linarith
      then show "compare (result ! k) pivot \<le> 0"
      proof cases
        case old then show ?thesis using a A by blast
      next
        case scanned then show ?thesis using i'(5) [of k] by simp
      next
        case last then show ?thesis using j'(4) by simp
      qed
    next
      fix k assume a: "j' < k \<and> k \<le> h"
      show "0 \<le> compare (result ! k) pivot"
      proof (cases "j \<le> int k")
        case True then show ?thesis using a B by blast
      next
        case False then show ?thesis using a j'(5) [of k] by simp
      qed
    qed simp_all
    moreover have "partition_loop compare result pivot i j = Some (int j', result)"
      using True i'(1) j'(1) partition_loop.simps [of compare result pivot i j] by simp
    ultimately show ?thesis by blast
  next
    case False
    then have lt: "i' < j'" by simp
    define xs' where "xs' = swap result i' j'"
    have nth: "\<And>k. k < length result \<Longrightarrow>
        xs' ! k = (if k = i' then result ! j' else if k = j' then result ! i' else result ! k)"
      unfolding xs'_def using r by (simp add: nth_swap)
    have "part_inv compare xs' pivot l h (int i') (int j')"
      unfolding part_inv_def
    proof (intro conjI allI impI)
      show "int l - 1 \<le> int i'" "int i' < int j'" "int j' \<le> int h + 1" "h < length xs'"
        using r lt b by (simp_all add: xs'_def)
    next
      fix k assume a: "l \<le> k \<and> int k \<le> int i'"
      then have kl: "k < length result" "k \<noteq> j'" using r lt by auto
      consider (old) "int k \<le> i" | (scanned) "i < int k" "k < i'" | (last) "k = i'"
        using a by linarith
      then show "compare (xs' ! k) pivot \<le> 0"
      proof cases
        case old then show ?thesis using a A [of k] kl nth i'(2) by auto
      next
        case scanned then show ?thesis using i'(5) [of k] kl nth by simp
      next
        case last then show ?thesis using j'(4) kl nth by simp
      qed
    next
      fix k assume a: "int j' \<le> int k \<and> k \<le> h"
      then have kl: "k < length result" "k \<noteq> i'" using r lt b by auto
      consider (old) "j \<le> int k" | (scanned) "int k < j" "j' < k" | (last) "k = j'"
        using a by linarith
      then show "0 \<le> compare (xs' ! k) pivot"
      proof cases
        case old then show ?thesis using a B [of k] kl nth j'(2) by auto
      next
        case scanned then show ?thesis using j'(5) [of k] kl nth by simp
      next
        case last then show ?thesis using i'(4) kl nth lt by simp
      qed
    next
      show "\<exists>s. int i' < int s \<and> s \<le> h \<and> \<not> compare (xs' ! s) pivot < 0"
        using lt r i'(4) nth by (intro exI [of _ j']) simp
      show "\<exists>s. l \<le> s \<and> int s < int j' \<and> \<not> 0 < compare (xs' ! s) pivot"
        using lt r j'(4) nth by (intro exI [of _ i']) simp
      show "int j' \<le> int h \<or> (\<exists>s. int i' < int s \<and> s < h \<and> \<not> compare (xs' ! s) pivot < 0)"
        using r by simp
    qed
    then obtain p ys where p: "partition_loop compare xs' pivot (int i') (int j') = Some (int p, ys)"
        "partitioned compare xs' ys pivot l h p"
      using "1.IH" [OF i'(1) j'(1)] lt by (auto simp: xs'_def)
    have "partitioned compare result ys pivot l h p"
      using p(2) r lt nth unfolding partitioned_def by (auto simp: xs'_def)
    moreover have "partition_loop compare result pivot i j = Some (int p, ys)"
      using lt i'(1) j'(1) p(1) partition_loop.simps [of compare result pivot i j]
      by (simp add: xs'_def)
    ultimately show ?thesis by blast
  qed
qed

definition range_sorted :: "'a comparator \<Rightarrow> 'a list \<Rightarrow> nat \<Rightarrow> nat \<Rightarrow> bool" where
  "range_sorted cmp ys l h \<longleftrightarrow> (\<forall>p q. l \<le> p \<and> p < q \<and> q \<le> h \<longrightarrow> cmp (ys ! p) (ys ! q) \<le> 0)"

definition same_outside :: "'a list \<Rightarrow> 'a list \<Rightarrow> nat \<Rightarrow> nat \<Rightarrow> bool" where
  "same_outside xs ys l h \<longleftrightarrow>
     length ys = length xs \<and> mset ys = mset xs \<and>
     (\<forall>k. k < length xs \<and> (k < l \<or> h < k) \<longrightarrow> ys ! k = xs ! k)"

lemma partition_spec:
  assumes vc: "valid_compare cmp" and lh: "l < h" "h < length xs"
  shows "\<exists>p ys. partition cmp xs (int l) (int h) = Some (int p, ys) \<and>
           partitioned cmp xs ys (xs ! ((l + h) div 2)) l h p"
proof -
  define mid where "mid = (l + h) div 2"
  define v where "v = xs ! mid"
  have mid: "l \<le> mid" "mid < h" "(int l + int h) div 2 = int mid" using lh by (auto simp: mid_def)
  have r: "cmp v v = 0" using valid_compare_refl [OF vc] .
  have "part_inv cmp xs v l h (int l - 1) (int h + 1)"
    unfolding part_inv_def
  proof (intro conjI allI impI)
    show "\<exists>s. int l - 1 < int s \<and> s \<le> h \<and> \<not> cmp (xs ! s) v < 0"
      using mid r by (intro exI [of _ mid]) (simp add: v_def)
    show "\<exists>s. l \<le> s \<and> int s < int h + 1 \<and> \<not> 0 < cmp (xs ! s) v"
      using mid r by (intro exI [of _ mid]) (simp add: v_def)
    show "int h + 1 \<le> int h \<or> (\<exists>s. int l - 1 < int s \<and> s < h \<and> \<not> cmp (xs ! s) v < 0)"
      using mid r by (intro disjI2 exI [of _ mid]) (simp add: v_def)
  qed (use lh in auto)
  from partition_loop_spec [OF this]
  obtain p ys where "partition_loop cmp xs v (int l - 1) (int h + 1) = Some (int p, ys)"
      "partitioned cmp xs ys v l h p"
    by blast
  moreover have "partition cmp xs (int l) (int h) = partition_loop cmp xs v (int l - 1) (int h + 1)"
    using mid lh by (simp add: partition_def Let_def v_def)
  ultimately show ?thesis by (auto simp: v_def mid_def)
qed

lemma range_mset:
  assumes so: "same_outside xs ys l h" and h: "h < length xs" and lh: "l \<le> Suc h"
  shows "mset (take (Suc h - l) (drop l ys)) = mset (take (Suc h - l) (drop l xs))"
proof -
  have len: "length ys = length xs" and ms: "mset ys = mset xs"
    and out: "\<And>k. k < length xs \<Longrightarrow> k < l \<or> h < k \<Longrightarrow> ys ! k = xs ! k"
    using so unfolding same_outside_def by blast+
  have split: "\<And>zs :: 'a list. zs = take l zs @ take (Suc h - l) (drop l zs) @ drop (Suc h) zs"
  proof -
    fix zs :: "'a list"
    have "drop (Suc h - l) (drop l zs) = drop (Suc h) zs" using lh by simp
    then have "drop l zs = take (Suc h - l) (drop l zs) @ drop (Suc h) zs"
      by (metis append_take_drop_id)
    then show "zs = take l zs @ take (Suc h - l) (drop l zs) @ drop (Suc h) zs"
      by (metis append_take_drop_id)
  qed
  have t: "take l ys = take l xs"
    using len out h lh by (intro nth_equalityI) auto
  have d: "drop (Suc h) ys = drop (Suc h) xs"
    using len out by (intro nth_equalityI) auto
  have "mset xs = mset (take l xs) + mset (take (Suc h - l) (drop l xs)) + mset (drop (Suc h) xs)"
    using split [of xs] by (metis mset_append add.assoc)
  moreover have "mset ys = mset (take l ys) + mset (take (Suc h - l) (drop l ys)) + mset (drop (Suc h) ys)"
    using split [of ys] by (metis mset_append add.assoc)
  ultimately show ?thesis using ms t d by simp
qed

lemma range_elem:
  assumes so: "same_outside xs ys l h" and h: "h < length xs" and a: "l \<le> a" "a \<le> h"
  shows "\<exists>k. l \<le> k \<and> k \<le> h \<and> ys ! a = xs ! k"
proof -
  have len: "length ys = length xs" using so unfolding same_outside_def by blast
  have "ys ! a = take (Suc h - l) (drop l ys) ! (a - l)" using a h len by simp
  moreover have "a - l < length (take (Suc h - l) (drop l ys))" using a h len by simp
  ultimately have "ys ! a \<in> set (take (Suc h - l) (drop l ys))" by (metis nth_mem)
  then have "ys ! a \<in> set (take (Suc h - l) (drop l xs))"
    using range_mset [OF so h] a by (metis le_SucI le_trans set_mset_mset)
  then obtain n where n: "n < length (take (Suc h - l) (drop l xs))"
      "take (Suc h - l) (drop l xs) ! n = ys ! a"
    by (auto simp: in_set_conv_nth)
  then have "n < Suc h - l" "xs ! (l + n) = ys ! a" using h by auto
  then show ?thesis by (intro exI [of _ "l + n"]) auto
qed

lemma quickSort_sort_spec:
  assumes vc: "valid_compare cmp"
  shows "h < length xs \<Longrightarrow>
    \<exists>ys. quickSort_sort cmp xs (int l) (int h) = Some ys \<and> same_outside xs ys l h \<and> range_sorted cmp ys l h"
proof (induction "h - l" arbitrary: xs l h rule: less_induct)
  case less
  show ?case
  proof (cases "l < h")
    case False
    then have "quickSort_sort cmp xs (int l) (int h) = Some xs"
      by (subst quickSort_sort.simps) simp
    moreover have "same_outside xs xs l h" by (simp add: same_outside_def)
    moreover have "range_sorted cmp xs l h" using False by (auto simp: range_sorted_def)
    ultimately show ?thesis by blast
  next
    case True
    define v where "v = xs ! ((l + h) div 2)"
    obtain p xs1 where pt: "partition cmp xs (int l) (int h) = Some (int p, xs1)"
        and pd: "partitioned cmp xs xs1 v l h p"
      using partition_spec [OF vc True less.prems] unfolding v_def by blast
    have p: "l \<le> p" "p < h" and len1: "length xs1 = length xs" and ms1: "mset xs1 = mset xs"
      and out1: "\<And>k. k < length xs \<Longrightarrow> k < l \<or> h < k \<Longrightarrow> xs1 ! k = xs ! k"
      and lo1: "\<And>k. l \<le> k \<Longrightarrow> k \<le> p \<Longrightarrow> cmp (xs1 ! k) v \<le> 0"
      and hi1: "\<And>k. p < k \<Longrightarrow> k \<le> h \<Longrightarrow> 0 \<le> cmp (xs1 ! k) v"
      using pd unfolding partitioned_def by blast+
    have "p - l < h - l" "p < length xs1" using p less.prems len1 by auto
    then obtain xs2 where s2: "quickSort_sort cmp xs1 (int l) (int p) = Some xs2"
        and so2: "same_outside xs1 xs2 l p" and rs2: "range_sorted cmp xs2 l p"
      using less.hyps [of p l xs1] by blast
    have len2: "length xs2 = length xs1" and ms2: "mset xs2 = mset xs1"
      and out2: "\<And>k. k < length xs1 \<Longrightarrow> k < l \<or> p < k \<Longrightarrow> xs2 ! k = xs1 ! k"
      using so2 unfolding same_outside_def by blast+
    have "h - Suc p < h - l" "h < length xs2" using p less.prems len1 len2 by auto
    then obtain xs3 where s3: "quickSort_sort cmp xs2 (int (Suc p)) (int h) = Some xs3"
        and so3: "same_outside xs2 xs3 (Suc p) h" and rs3: "range_sorted cmp xs3 (Suc p) h"
      using less.hyps [of h "Suc p" xs2] by blast
    have len3: "length xs3 = length xs2" and ms3: "mset xs3 = mset xs2"
      and out3: "\<And>k. k < length xs2 \<Longrightarrow> k < Suc p \<or> h < k \<Longrightarrow> xs3 ! k = xs2 ! k"
      using so3 unfolding same_outside_def by blast+
    have "quickSort_sort cmp xs (int l) (int h) = Some xs3"
      using True pt s2 s3 by (subst quickSort_sort.simps) (simp add: add.commute)
    moreover have "same_outside xs xs3 l h"
      unfolding same_outside_def
    proof (intro conjI allI impI)
      fix k assume a: "k < length xs \<and> (k < l \<or> h < k)"
      then have "xs3 ! k = xs2 ! k" using out3 [of k] p len1 len2 by auto
      also have "\<dots> = xs1 ! k" using a out2 [of k] p len1 by auto
      also have "\<dots> = xs ! k" using a out1 [of k] by auto
      finally show "xs3 ! k = xs ! k" .
    qed (simp_all add: len1 len2 len3 ms1 ms2 ms3)
    moreover have "range_sorted cmp xs3 l h"
      unfolding range_sorted_def
    proof (intro allI impI)
      fix a b assume ab: "l \<le> a \<and> a < b \<and> b \<le> h"
      have bl: "b < length xs" "a < length xs" using ab less.prems by auto
      consider (left) "b \<le> p" | (right) "Suc p \<le> a" | (cross) "a \<le> p" "p < b" by linarith
      then show "cmp (xs3 ! a) (xs3 ! b) \<le> 0"
      proof cases
        case left
        then have "xs3 ! a = xs2 ! a" "xs3 ! b = xs2 ! b"
          using ab bl out3 [of a] out3 [of b] len1 len2 by auto
        then show ?thesis using rs2 ab left unfolding range_sorted_def by auto
      next
        case right
        then show ?thesis using rs3 ab unfolding range_sorted_def by auto
      next
        case cross
        have "xs3 ! a = xs2 ! a" using cross bl out3 [of a] len1 len2 by auto
        moreover obtain k where "l \<le> k" "k \<le> p" "xs2 ! a = xs1 ! k"
          using range_elem [OF so2, of a] p less.prems len1 ab cross by auto
        ultimately have lo: "cmp (xs3 ! a) v \<le> 0" using lo1 [of k] by simp
        obtain n where n: "Suc p \<le> n" "n \<le> h" "xs3 ! b = xs2 ! n"
          using range_elem [OF so3, of b] less.prems len1 len2 ab cross by auto
        then have "xs2 ! n = xs1 ! n" using out2 [of n] less.prems len1 by auto
        then have "0 \<le> cmp (xs3 ! b) v" using n hi1 [of n] by simp
        then have "cmp v (xs3 ! b) \<le> 0" using valid_compare_ge [OF vc, of "xs3 ! b" v] by simp
        then show ?thesis using lo valid_compare_trans [OF vc, of "xs3 ! a" v "xs3 ! b"] by simp
      qed
    qed
    ultimately show ?thesis by blast
  qed
qed

lemma quickSort_sort_correct:
  assumes vc: "valid_compare cmp" and ne: "xs \<noteq> []"
  shows "\<exists>ys. quickSort_sort cmp xs 0 (int (length xs) - 1) = Some ys \<and>
           sorted_wrt (\<lambda>a b. cmp a b \<le> 0) ys \<and> mset ys = mset xs"
proof -
  define h where "h = length xs - 1"
  have h: "h < length xs" "int (length xs) - 1 = int h" using ne by (cases xs; simp add: h_def)+
  obtain ys where ys: "quickSort_sort cmp xs (int 0) (int h) = Some ys"
      "same_outside xs ys 0 h" "range_sorted cmp ys 0 h"
    using quickSort_sort_spec [OF vc h(1), of 0] by blast
  have "length ys = length xs" "mset ys = mset xs" using ys(2) unfolding same_outside_def by auto
  moreover have "sorted_wrt (\<lambda>a b. cmp a b \<le> 0) ys"
    using ys(3) \<open>length ys = length xs\<close> h unfolding range_sorted_def
    by (auto simp: sorted_wrt_iff_nth_less h_def)
  ultimately show ?thesis using ys(1) h by auto
qed

subsection \<open>The sorting functions on the memory\<close>

definition sorted_output :: "'a comparator \<Rightarrow> ref \<Rightarrow> 'a memory \<Rightarrow> ref \<Rightarrow> 'a memory \<Rightarrow> bool" where
  "sorted_output cmp arr m result m' \<longleftrightarrow>
     isSorted cmp (arrays m' result) \<and> mset (arrays m' result) = mset (arrays m arr) \<and>
     arrays m' arr = arrays m arr"

lemma quickSort_output:
  assumes vc: "valid_compare cmp" and al: "arr < next_ref m"
  shows "\<exists>result m'. quickSort cmp arr m = (Some result, m') \<and> sorted_output cmp arr m result m'"
proof (cases "length (arrays m arr) \<le> 1")
  case True
  then have "sorted_wrt (\<lambda>a b. cmp a b \<le> 0) (arrays m arr)"
    by (cases "arrays m arr") (auto simp: le_Suc_eq)
  then have "isSorted cmp (arrays m arr)" by (rule sorted_wrt_isSorted)
  then show ?thesis
    using True al by (simp add: quickSort_def new_array_def sorted_output_def)
next
  case False
  then have "arrays m arr \<noteq> []" by auto
  then obtain ys where ys: "quickSort_sort cmp (arrays m arr) 0 (int (length (arrays m arr)) - 1) = Some ys"
      "sorted_wrt (\<lambda>a b. cmp a b \<le> 0) ys" "mset ys = mset (arrays m arr)"
    using quickSort_sort_correct [OF vc] by blast
  have "isSorted cmp ys" using ys(2) by (rule sorted_wrt_isSorted)
  then show ?thesis
    using False al ys by (simp add: quickSort_def new_array_def write_array_def sorted_output_def)
qed

lemma mergeSort_output:
  assumes vc: "valid_compare cmp" and al: "arr < next_ref m"
  shows "\<exists>result m'. mergeSort cmp arr m = (result, m') \<and> sorted_output cmp arr m result m'"
  using mergeSort_list_correct [OF vc, of "arrays m arr"] al
  by (simp add: mergeSort_def new_array_def sorted_output_def sorted_wrt_isSorted)

lemma heapSort_output:
  assumes vc: "valid_compare cmp" and al: "arr < next_ref m"
  shows "\<exists>result m'. heapSort cmp arr m = (result, m') \<and> sorted_output cmp arr m result m'"
  using heapSort_list_correct [OF vc refl, of "arrays m arr"] al
  by (simp add: heapSort_def new_array_def write_array_def sorted_output_def sorted_wrt_isSorted Let_def)

lemma insertionSort_output:
  assumes vc: "valid_compare cmp" and al: "arr < next_ref m"
  shows "\<exists>result m'. insertionSort cmp arr m = (result, m') \<and> sorted_output cmp arr m result m'"
proof -
  have "prefix_sorted cmp (arrays m arr) 1" by (simp add: prefix_sorted_def)
  then show ?thesis
    using insertion_loop_correct [OF vc, of "arrays m arr" 1] al
    by (simp add: insertionSort_def new_array_def write_array_def sorted_output_def
        sorted_wrt_isSorted Let_def)
qed

text \<open>
  C2. For every input array of the memory and every comparator that follows the comparator
  contract, each of \<open>quickSort\<close>, \<open>mergeSort\<close>, \<open>heapSort\<close>, \<open>insertionSort\<close> and the
  dispatcher \<open>sort\<close> returns an array that \<open>isSorted\<close> accepts under the comparator and
  that has the same elements as the input (as a multiset), and leaves the input array as
  it was.
\<close>

theorem sorting_correct:
  "valid_compare cmp \<and> arr < next_ref m \<longrightarrow>
     (case quickSort cmp arr m of
        (r, m') \<Rightarrow> (case r of Some result \<Rightarrow> sorted_output cmp arr m result m' | None \<Rightarrow> False)) \<and>
     (case mergeSort cmp arr m of (result, m') \<Rightarrow> sorted_output cmp arr m result m') \<and>
     (case heapSort cmp arr m of (result, m') \<Rightarrow> sorted_output cmp arr m result m') \<and>
     (case insertionSort cmp arr m of (result, m') \<Rightarrow> sorted_output cmp arr m result m') \<and>
     (case sort cmp arr m of
        (r, m') \<Rightarrow> (case r of Some result \<Rightarrow> sorted_output cmp arr m result m' | None \<Rightarrow> False))"
proof (intro impI)
  assume a: "valid_compare cmp \<and> arr < next_ref m"
  then have vc: "valid_compare cmp" and al: "arr < next_ref m" by simp_all
  obtain q mq where q: "quickSort cmp arr m = (Some q, mq)" "sorted_output cmp arr m q mq"
    using quickSort_output [OF vc al] by blast
  obtain g mg where g: "mergeSort cmp arr m = (g, mg)" "sorted_output cmp arr m g mg"
    using mergeSort_output [OF vc al] by blast
  obtain e me where e: "heapSort cmp arr m = (e, me)" "sorted_output cmp arr m e me"
    using heapSort_output [OF vc al] by blast
  obtain n mn where n: "insertionSort cmp arr m = (n, mn)" "sorted_output cmp arr m n mn"
    using insertionSort_output [OF vc al] by blast
  have "case sort cmp arr m of
        (r, m') \<Rightarrow> (case r of Some result \<Rightarrow> sorted_output cmp arr m result m' | None \<Rightarrow> False)"
    using q n by (simp add: sort_def)
  then show "(case quickSort cmp arr m of
        (r, m') \<Rightarrow> (case r of Some result \<Rightarrow> sorted_output cmp arr m result m' | None \<Rightarrow> False)) \<and>
     (case mergeSort cmp arr m of (result, m') \<Rightarrow> sorted_output cmp arr m result m') \<and>
     (case heapSort cmp arr m of (result, m') \<Rightarrow> sorted_output cmp arr m result m') \<and>
     (case insertionSort cmp arr m of (result, m') \<Rightarrow> sorted_output cmp arr m result m') \<and>
     (case sort cmp arr m of
        (r, m') \<Rightarrow> (case r of Some result \<Rightarrow> sorted_output cmp arr m result m' | None \<Rightarrow> False))"
    using q g e n by simp
qed

theorem sorting_correct_witness:
  "valid_compare default_compare \<and> 0 < next_ref example_memory \<and>
     (case quickSort default_compare 0 example_memory of
        (r, m') \<Rightarrow>
          (case r of Some result \<Rightarrow> sorted_output default_compare 0 example_memory result m'
           | None \<Rightarrow> False)) \<and>
     (case mergeSort default_compare 0 example_memory of
        (result, m') \<Rightarrow> sorted_output default_compare 0 example_memory result m') \<and>
     (case heapSort default_compare 0 example_memory of
        (result, m') \<Rightarrow> sorted_output default_compare 0 example_memory result m') \<and>
     (case insertionSort default_compare 0 example_memory of
        (result, m') \<Rightarrow> sorted_output default_compare 0 example_memory result m') \<and>
     (case sort default_compare 0 example_memory of
        (r, m') \<Rightarrow>
          (case r of Some result \<Rightarrow> sorted_output default_compare 0 example_memory result m'
           | None \<Rightarrow> False))"
proof -
  have h: "valid_compare default_compare \<and> 0 < next_ref example_memory"
    by (simp add: valid_compare_default)
  show ?thesis
    using h sorting_correct [where cmp = default_compare and arr = 0 and m = example_memory]
    by (simp only: simp_thms)
qed

section \<open>Sizes after \<open>add\<close> and \<open>remove\<close>\<close>

text \<open>
  C9. \<open>add\<close> on a heap of size \<open>n\<close> returns a heap of size \<open>n + 1\<close>; \<open>remove\<close> on a
  non-empty heap of size \<open>n\<close> returns an element and a heap of size \<open>n - 1\<close>; \<open>remove\<close> on
  an empty heap raises nothing: it returns no element and an empty heap of the receiver's
  class with the receiver's comparator. The heap's array is an array of the memory.
\<close>

theorem add_remove_size:
  assumes "elements h < next_ref m"
  shows "(case add h (Some x) m of
            (r, m') \<Rightarrow> (case r of Inr h' \<Rightarrow> size_heap h' m' = size_heap h m + 1 | Inl e \<Rightarrow> False)) \<and>
         (case remove h m of
            ((e, h'), m') \<Rightarrow>
              if isEmpty h m then
                e = None \<and> size_heap h' m' = 0 \<and> heap_class h' = heap_class h \<and> compare h' = compare h
              else e \<noteq> None \<and> size_heap h' m' = size_heap h m - 1)"
proof (cases "arrays m (elements h) = []")
  case True
  then show ?thesis
    using assms by (simp add: add_eq remove_empty_eq size_heap_def isEmpty_def)
next
  case False
  have "butlast ((arrays m (elements h))[0 := last (arrays m (elements h))]) = []
      \<Longrightarrow> length (arrays m (elements h)) - 1 = 0"
  proof -
    assume "butlast ((arrays m (elements h))[0 := last (arrays m (elements h))]) = []"
    then have "length (butlast ((arrays m (elements h))[0 := last (arrays m (elements h))])) = 0"
      by simp
    then show ?thesis by simp
  qed
  then show ?thesis
    using assms False by (auto simp: add_eq remove_eq size_heap_def isEmpty_def Let_def)
qed

theorem add_remove_size_witness:
  "elements example_heap < next_ref example_memory \<and>
   (case add example_heap (Some 0) example_memory of
      (r, m') \<Rightarrow>
        (case r of Inr h' \<Rightarrow> size_heap h' m' = size_heap example_heap example_memory + 1
         | Inl e \<Rightarrow> False)) \<and>
   (case remove example_heap example_memory of
      ((e, h'), m') \<Rightarrow>
        if isEmpty example_heap example_memory then
          e = None \<and> size_heap h' m' = 0 \<and> heap_class h' = heap_class example_heap \<and>
          compare h' = compare example_heap
        else e \<noteq> None \<and> size_heap h' m' = size_heap example_heap example_memory - 1)"
proof -
  have h: "elements example_heap < next_ref example_memory" by simp
  show ?thesis using h add_remove_size [OF h, of 0] by blast
qed

section \<open>\<open>add\<close> leaves the receiver unchanged\<close>

text \<open>
  C8. For every heap \<open>h1\<close> whose array is an array of the memory and every element \<open>x\<close>
  that is not absent, \<open>h1.add(x)\<close> returns a heap with an array of its own and writes
  nothing to the array of \<open>h1\<close>: the size of \<open>h1\<close> and the sequence that iterating \<open>h1\<close>
  yields are the same after the call as before.
\<close>

theorem add_leaves_receiver_unchanged:
  assumes "elements h1 < next_ref m"
  shows "(case add h1 (Some x) m of
            (r, m') \<Rightarrow>
              (case r of Inr h2 \<Rightarrow> elements h2 \<noteq> elements h1 | Inl e \<Rightarrow> False) \<and>
              arrays m' (elements h1) = arrays m (elements h1) \<and>
              size_heap h1 m' = size_heap h1 m \<and>
              fst (iterator h1 m') = fst (iterator h1 m))"
  using assms by (simp add: add_eq iterator_eq size_heap_def)

theorem add_leaves_receiver_unchanged_witness:
  "elements example_heap < next_ref example_memory \<and>
   (case add example_heap (Some 0) example_memory of
      (r, m') \<Rightarrow>
        (case r of Inr h2 \<Rightarrow> elements h2 \<noteq> elements example_heap | Inl e \<Rightarrow> False) \<and>
        arrays m' (elements example_heap) = arrays example_memory (elements example_heap) \<and>
        size_heap example_heap m' = size_heap example_heap example_memory \<and>
        fst (iterator example_heap m') = fst (iterator example_heap example_memory))"
proof -
  have h: "elements example_heap < next_ref example_memory" by simp
  show ?thesis using h add_leaves_receiver_unchanged [OF h, of 0] by blast
qed

section \<open>\<open>search\<close> raises nothing\<close>

text \<open>
  C10. For every array, target and comparator, \<open>search\<close> returns a result and never the
  error of the sortedness check: it hands an array to \<open>binarySearch\<close> only after its own
  scan found the array sorted, and the scan of \<open>binarySearch\<close> is the same scan with the
  same comparator.
\<close>

theorem search_never_raises: "\<exists>r. search number_of cmp arr target = Inr r"
  by (simp add: search_def binarySearch_def Let_def)

section \<open>Comparison counts\<close>

lemma binarySearch_loop_comparisons:
  "nat (right - left + 1) < 2 ^ k \<Longrightarrow>
   comparisons (binarySearch_loop cmp arr target left right c) \<le> c + k"
proof (induction k arbitrary: left right c)
  case 0
  then have "\<not> left \<le> right" by simp
  then show ?case using binarySearch_loop.simps [of cmp arr target left right c] by simp
next
  case (Suc k)
  show ?case
  proof (cases "left \<le> right")
    case False
    then show ?thesis using binarySearch_loop.simps [of cmp arr target left right c] by simp
  next
    case True
    define mid where "mid = left + (right - left) div 2"
    have a: "nat (right - (mid + 1) + 1) < 2 ^ k"
      using Suc.prems True unfolding mid_def by (simp add: nat_less_iff) 
    have b: "nat ((mid - 1) - left + 1) < 2 ^ k"
      using Suc.prems True unfolding mid_def by (simp add: nat_less_iff)
    have "comparisons (binarySearch_loop cmp arr target (mid + 1) right (c + 1)) \<le> c + 1 + k"
      using Suc.IH [OF a, of "c + 1"] by simp
    moreover have "comparisons (binarySearch_loop cmp arr target left (mid - 1) (c + 1)) \<le> c + 1 + k"
      using Suc.IH [OF b, of "c + 1"] by simp
    ultimately show ?thesis
      using True binarySearch_loop.simps [of cmp arr target left right c]
      by (simp add: Let_def mid_def)
  qed
qed


lemma pow2_ceiling_log2: "n < 2 ^ nat \<lceil>log 2 (real n + 1)\<rceil>"
proof -
  define k where "k = nat \<lceil>log 2 (real n + 1)\<rceil>"
  have "0 \<le> log 2 (real n + 1)" by simp
  then have "0 \<le> \<lceil>log 2 (real n + 1)\<rceil>" by linarith
  then have k: "real_of_int \<lceil>log 2 (real n + 1)\<rceil> = real k" by (simp add: k_def)
  have "real n + 1 = 2 powr (log 2 (real n + 1))" by simp
  also have "\<dots> \<le> 2 powr real_of_int \<lceil>log 2 (real n + 1)\<rceil>"
    by (intro powr_mono) auto
  also have "\<dots> = 2 powr real k" by (simp only: k)
  also have "\<dots> = 2 ^ k" by (simp add: powr_realpow)
  finally have "real (n + 1) \<le> real (2 ^ k)" by simp
  then have "n + 1 \<le> 2 ^ k" by (simp only: of_nat_le_iff)
  then have "n < 2 ^ k" by simp
  then show ?thesis by (simp only: k_def)
qed

lemma linearSearch_loop_first_match:
  assumes "i \<le> k" and "k < length arr" and "cmp (arr ! k) target = 0"
    and "\<forall>j. i \<le> j \<and> j < k \<longrightarrow> cmp (arr ! j) target \<noteq> 0"
  shows "linearSearch_loop cmp arr target i c =
           \<lparr>element = Some (arr ! k), index = int k, comparisons = c + (k - i) + 1\<rparr>"
  using assms
proof (induction "k - i" arbitrary: i c)
  case 0
  then have "i = k" by simp
  then show ?case
    using 0 linearSearch_loop.simps [of cmp arr target i c] by (simp add: Let_def)
next
  case (Suc d)
  then have lt: "i < k" by simp
  then have ne: "cmp (arr ! i) target \<noteq> 0" using Suc.prems by simp
  have "linearSearch_loop cmp arr target (i + 1) (c + 1) =
      \<lparr>element = Some (arr ! k), index = int k, comparisons = (c + 1) + (k - (i + 1)) + 1\<rparr>"
    using Suc.hyps Suc.prems lt by (intro Suc.hyps(1)) auto
  then show ?case
    using lt ne Suc.prems linearSearch_loop.simps [of cmp arr target i c] by (simp add: Let_def)
qed

text \<open>
  C7. On a sorted array of \<open>n\<close> elements \<open>binarySearch\<close> returns a result whose
  \<open>comparisons\<close> is at most \<open>\<lceil>log\<^sub>2 (n + 1)\<rceil>\<close>: the counter is incremented once per probe
  and not by the scan that checks sortedness, which calls the comparator \<open>n - 1\<close> times.
  \<open>linearSearch\<close>, when the first element that compares equal to the target is at index
  \<open>k\<close>, returns index \<open>k\<close> and \<open>comparisons = k + 1\<close>.
\<close>

theorem comparison_counts:
  "(isSorted cmp arr \<longrightarrow>
      (case binarySearch cmp arr target of
         Inr r \<Rightarrow> comparisons r \<le> nat \<lceil>log 2 (real (length arr) + 1)\<rceil>
       | Inl e \<Rightarrow> False)) \<and>
   (k < length arr \<and> cmp (arr ! k) target = 0 \<and> (\<forall>j<k. cmp (arr ! j) target \<noteq> 0) \<longrightarrow>
      index (linearSearch cmp arr target) = int k \<and>
      comparisons (linearSearch cmp arr target) = k + 1)"
proof (intro conjI impI)
  assume "isSorted cmp arr"
  moreover have "comparisons (binarySearch_loop cmp arr target 0 (int (length arr) - 1) 0)
      \<le> 0 + nat \<lceil>log 2 (real (length arr) + 1)\<rceil>"
    using pow2_ceiling_log2 [of "length arr"] by (intro binarySearch_loop_comparisons) simp
  ultimately show "case binarySearch cmp arr target of
         Inr r \<Rightarrow> comparisons r \<le> nat \<lceil>log 2 (real (length arr) + 1)\<rceil>
       | Inl e \<Rightarrow> False"
    by (simp add: binarySearch_def isSorted_def Let_def)
next
  assume a: "k < length arr \<and> cmp (arr ! k) target = 0 \<and> (\<forall>j<k. cmp (arr ! j) target \<noteq> 0)"
  then have "linearSearch_loop cmp arr target 0 0 =
      \<lparr>element = Some (arr ! k), index = int k, comparisons = 0 + (k - 0) + 1\<rparr>"
    by (intro linearSearch_loop_first_match) auto
  then show "index (linearSearch cmp arr target) = int k" 
    and "comparisons (linearSearch cmp arr target) = k + 1"
    by (simp_all add: linearSearch_def)
qed

theorem comparison_counts_witness:
  "isSorted default_compare [1, 2, 3, 4, 5] \<and>
   (case binarySearch default_compare [1, 2, 3, 4, 5] 4 of
      Inr r \<Rightarrow> comparisons r \<le> nat \<lceil>log 2 (real (length [1, 2, 3, 4, 5 :: int]) + 1)\<rceil>
    | Inl e \<Rightarrow> False) \<and>
   default_compare ([1, 2, 3, 4, 5] ! 3) 4 = 0 \<and>
   index (linearSearch default_compare [1, 2, 3, 4, 5] 4) = 3 \<and>
   comparisons (linearSearch default_compare [1, 2, 3, 4, 5] 4) = 3 + 1"
proof -
  have s: "isSorted default_compare [1, 2, 3, 4, 5]" by code_simp
  have m: "(3::nat) < length [1, 2, 3, 4, 5 :: int] \<and> default_compare ([1, 2, 3, 4, 5] ! 3) 4 = 0 \<and>
      (\<forall>j<3. default_compare ([1, 2, 3, 4, 5] ! j) 4 \<noteq> 0)"
    by (auto simp: default_compare_def less_Suc_eq numeral_3_eq_3)
  show ?thesis
    using comparison_counts [of default_compare "[1, 2, 3, 4, 5]" 4 3] s m by simp
qed

section \<open>\<open>clear\<close>\<close>

text \<open>What \<open>clear\<close> returns on every heap whose array is an array of the memory.\<close>

lemma clear_same_elements:
  assumes "elements h < next_ref m"
  shows "case clear h m of
           (c, m') \<Rightarrow>
             arrays m' (elements c) = arrays m (elements h) \<and> size_heap c m' = size_heap h m \<and>
             heap_class c = heap_class h \<and> compare c = compare h"
  using assms by (simp add: clear_def clone_eq size_heap_def)

text \<open>
  C4. The claim: for every heap, \<open>clear()\<close> returns a new empty heap (size 0) of the same
  concrete type and with the same comparator as the receiver.

  The code does not do this. \<open>clear\<close> returns \<open>this.clone()\<close>, and \<open>clone\<close> pushes every
  element of the receiver onto the new heap: on \<open>MinHeap.from([5, 3, 7])\<close> the heap that
  \<open>clear()\<close> returns has the class of the receiver and size 3.
\<close>

theorem clear_keeps_the_elements:
  "(case MinHeap_from (Some 0) \<lparr>arrays = (\<lambda>_. [])(0 := [5, 3, 7]), next_ref = 1\<rparr> of
      (Inr h, m) \<Rightarrow>
        (case clear h m of
           (c, m') \<Rightarrow> size_heap h m = 3 \<and> size_heap c m' = 3 \<and> heap_class c = MinHeap)
    | (Inl e, m) \<Rightarrow> False)"
  by code_simp

section \<open>\<open>countingSort\<close> and negative numbers\<close>

text \<open>
  An array of length at least 2 with a negative element raises the error, and an array
  without negative elements raises nothing.
\<close>

lemma countingSort_negative:
  "2 \<le> length arr \<Longrightarrow> \<exists>n \<in> set arr. n < 0 \<Longrightarrow> countingSort arr = Inl NegativeNumbers"
  by (simp add: countingSort_def)

lemma countingSort_non_negative:
  "\<forall>n \<in> set arr. 0 \<le> n \<Longrightarrow> \<exists>result. countingSort arr = Inr result"
  by (auto simp: countingSort_def Let_def)

text \<open>
  C5. The claim: \<open>countingSort\<close> raises the domain error for every input array that contains
  at least one negative element, and returns the sorted array for every array of
  non-negative integers.

  The code returns a copy of every array of length at most 1 before it looks for negative
  numbers: \<open>countingSort([-1])\<close> returns \<open>[-1]\<close> and raises nothing.
\<close>

theorem countingSort_single_negative: "countingSort [- 1] = Inr [Some (- 1)]"
  by (simp add: countingSort_def)

section \<open>Searching a sorted array\<close>

text \<open>
  \<open>binarySearch\<close> on a sorted array, under a comparator that follows the comparator
  contract: it finds an element that compares equal to the target when there is one, and
  returns index \<open>-1\<close> and no element when there is none.
\<close>

lemma isSorted_sorted_wrt:
  assumes vc: "valid_compare cmp" and s: "isSorted cmp xs"
  shows "sorted_wrt (\<lambda>a b. cmp a b \<le> 0) xs"
proof -
  have adj: "\<And>j. j + 1 < length xs \<Longrightarrow> cmp (xs ! j) (xs ! (j + 1)) \<le> 0"
    using s by (simp add: isSorted_iff)
  have "\<And>i. i < j \<Longrightarrow> j < length xs \<Longrightarrow> cmp (xs ! i) (xs ! j) \<le> 0" for j
  proof (induction j)
    case 0
    then show ?case by simp
  next
    case (Suc j)
    show ?case
    proof (cases "i = j")
      case True
      then show ?thesis using adj [of j] Suc.prems by simp
    next
      case False
      then have "cmp (xs ! i) (xs ! j) \<le> 0" using Suc by simp
      moreover have "cmp (xs ! j) (xs ! Suc j) \<le> 0" using adj [of j] Suc.prems by simp
      ultimately show ?thesis using valid_compare_trans [OF vc] by blast
    qed
  qed
  then show ?thesis by (simp add: sorted_wrt_iff_nth_less)
qed

lemma binarySearch_loop_correct:
  "valid_compare cmp \<Longrightarrow> sorted_wrt (\<lambda>a b. cmp a b \<le> 0) arr \<Longrightarrow>
    0 \<le> left \<Longrightarrow> right < int (length arr) \<Longrightarrow>
    (\<forall>k < length arr. cmp (arr ! k) target = 0 \<longrightarrow> left \<le> int k \<and> int k \<le> right) \<Longrightarrow>
    (let r = binarySearch_loop cmp arr target left right c in
     if \<exists>k < length arr. cmp (arr ! k) target = 0
     then 0 \<le> index r \<and> index r < int (length arr) \<and> cmp (arr ! nat (index r)) target = 0 \<and>
          element r = Some (arr ! nat (index r))
     else index r = - 1 \<and> element r = None)"
proof (induction cmp arr target left right c rule: binarySearch_loop.induct)
  case (1 compare arr target left right c)
  note vc = \<open>valid_compare compare\<close> and srt = \<open>sorted_wrt (\<lambda>a b. compare a b \<le> 0) arr\<close>
  have le: "\<And>i j. i \<le> j \<Longrightarrow> j < length arr \<Longrightarrow> compare (arr ! i) (arr ! j) \<le> 0"
  proof -
    fix i j assume "i \<le> j" "j < length arr"
    then show "compare (arr ! i) (arr ! j) \<le> 0"
      using srt valid_compare_refl [OF vc, of "arr ! i"]
      by (cases "i = j") (auto simp: sorted_wrt_iff_nth_less)
  qed
  show ?case
  proof (cases "left \<le> right")
    case False
    then have "\<not> (\<exists>k < length arr. compare (arr ! k) target = 0)" using "1.prems"(5) by force
    then show ?thesis
      using False binarySearch_loop.simps [of compare arr target left right c] by simp
  next
    case True
    define mid where "mid = left + (right - left) div 2"
    define m where "m = nat mid"
    have mid: "left \<le> mid" "mid \<le> right" "int m = mid" "m < length arr"
      using True "1.prems"(3,4) by (auto simp: mid_def m_def)
    consider (eq) "compare (arr ! m) target = 0" | (lt) "compare (arr ! m) target < 0"
      | (gt) "compare (arr ! m) target > 0" by linarith
    then show ?thesis
    proof cases
      case eq
      then have "\<exists>k < length arr. compare (arr ! k) target = 0" using mid by blast
      then show ?thesis
        using eq True mid binarySearch_loop.simps [of compare arr target left right c]
        by (simp add: Let_def mid_def [symmetric] m_def [symmetric])
    next
      case lt
      have "\<forall>k < length arr. compare (arr ! k) target = 0 \<longrightarrow> mid + 1 \<le> int k \<and> int k \<le> right"
      proof (intro allI impI)
        fix k assume k: "k < length arr" "compare (arr ! k) target = 0"
        have "\<not> k \<le> m"
        proof
          assume "k \<le> m"
          then have "compare (arr ! k) (arr ! m) \<le> 0" using le mid by simp
          then have "compare (arr ! k) target < 0"
            using lt valid_compare_le_less [OF vc] by blast
          then show False using k by simp
        qed
        then show "mid + 1 \<le> int k \<and> int k \<le> right" using mid "1.prems"(5) k by auto
      qed
      then have "let r = binarySearch_loop compare arr target (mid + 1) right (c + 1) in
          if \<exists>k < length arr. compare (arr ! k) target = 0
          then 0 \<le> index r \<and> index r < int (length arr) \<and> compare (arr ! nat (index r)) target = 0 \<and>
               element r = Some (arr ! nat (index r))
          else index r = - 1 \<and> element r = None"
        using "1.IH"(1) [OF True mid_def refl refl _ _ vc srt] lt mid "1.prems"(3,4)
        by (simp add: m_def)
      then show ?thesis
        using lt True binarySearch_loop.simps [of compare arr target left right c]
        by (simp add: Let_def mid_def [symmetric] m_def [symmetric])
    next
      case gt
      have "\<forall>k < length arr. compare (arr ! k) target = 0 \<longrightarrow> left \<le> int k \<and> int k \<le> mid - 1"
      proof (intro allI impI)
        fix k assume k: "k < length arr" "compare (arr ! k) target = 0"
        have "\<not> m \<le> k"
        proof
          assume "m \<le> k"
          then have "compare (arr ! m) (arr ! k) \<le> 0" using le k by simp
          moreover have "compare (arr ! k) target \<le> 0" using k by simp
          ultimately have "compare (arr ! m) target \<le> 0" using valid_compare_trans [OF vc] by blast
          then show False using gt by simp
        qed
        then show "left \<le> int k \<and> int k \<le> mid - 1" using mid "1.prems"(5) k by auto
      qed
      then have "let r = binarySearch_loop compare arr target left (mid - 1) (c + 1) in
          if \<exists>k < length arr. compare (arr ! k) target = 0
          then 0 \<le> index r \<and> index r < int (length arr) \<and> compare (arr ! nat (index r)) target = 0 \<and>
               element r = Some (arr ! nat (index r))
          else index r = - 1 \<and> element r = None"
        using "1.IH"(2) [OF True mid_def refl refl _ _ vc srt] gt mid "1.prems"(3,4)
        by (simp add: m_def)
      then show ?thesis
        using gt True binarySearch_loop.simps [of compare arr target left right c]
        by (simp add: Let_def mid_def [symmetric] m_def [symmetric])
    qed
  qed
qed

lemma binarySearch_correct:
  assumes vc: "valid_compare cmp" and s: "isSorted cmp arr"
  shows "\<exists>r. binarySearch cmp arr target = Inr r \<and>
           (if \<exists>k < length arr. cmp (arr ! k) target = 0
            then 0 \<le> index r \<and> index r < int (length arr) \<and> cmp (arr ! nat (index r)) target = 0 \<and>
                 element r = Some (arr ! nat (index r))
            else index r = - 1 \<and> element r = None)"
proof -
  have srt: "sorted_wrt (\<lambda>a b. cmp a b \<le> 0) arr" using isSorted_sorted_wrt [OF vc s] .
  have "let r = binarySearch_loop cmp arr target 0 (int (length arr) - 1) 0 in
      if \<exists>k < length arr. cmp (arr ! k) target = 0
      then 0 \<le> index r \<and> index r < int (length arr) \<and> cmp (arr ! nat (index r)) target = 0 \<and>
           element r = Some (arr ! nat (index r))
      else index r = - 1 \<and> element r = None"
    by (rule binarySearch_loop_correct [OF vc srt]) auto
  then show ?thesis using s by (simp add: binarySearch_def isSorted_def Let_def)
qed

text \<open>
  C3. The claim: on every sorted array, each of \<open>binarySearch\<close>, \<open>jumpSearch\<close>,
  \<open>interpolationSearch\<close> and \<open>exponentialSearch\<close> returns an index of the target when the
  target is present, and index \<open>-1\<close> with no element when it is absent.

  \<open>interpolationSearch\<close> does not: on the sorted array \<open>[5, 5]\<close> and the target \<open>5\<close>, which
  is present, the probe position is \<open>0 / 0\<close> and the function returns index \<open>-1\<close> after one
  comparison.
\<close>

theorem interpolationSearch_plateau:
  "isSorted default_compare [5, 5] \<and> 5 \<in> set [5, 5 :: int] \<and>
   interpolationSearch [5, 5] 5 = \<lparr>element = None, index = - 1, comparisons = 1\<rparr>"
  by code_simp

end
